theory Spec2Isabelle
  imports Main "HOL-Library.Word" "HOL-Library.Signed_Division" "HOL-Library.Code_Target_Nat"
begin

section \<open>Data model\<close>

text \<open>
  The exception classes of \<^verbatim>\<open>BigInt.h\<close> that the library throws, as values. A read or
  write past the end of a \<^verbatim>\<open>std::string\<close> or \<^verbatim>\<open>std::vector\<close> is not an exception in C++ but
  undefined behaviour; the model makes it a result of its own so that no such access is
  hidden behind the unspecified value of \<open>xs ! i\<close>.
\<close>

datatype error = DivisionByZero | InvalidInput | OutOfRange | UndefinedBehaviour

text \<open>
  \<^verbatim>\<open>class BigInt { std::vector<int> digits; bool negative; }\<close>: the digits are stored
  least-significant first. The elements are C++ \<^verbatim>\<open>int\<close>s; on digits in \<open>0..9\<close> every
  intermediate value of the digit loops stays below 100, so the model uses \<open>int\<close> with the
  truncating division of C++ (\<open>sdiv\<close>, \<open>smod\<close>).
\<close>

record BigInt =
  digits :: "int list"
  negative :: bool

text \<open>A computation that may throw, and may fail to return: \<open>None\<close> is a loop that runs forever.\<close>

type_synonym 'a res = "(error + 'a) option"

section \<open>Helper methods\<close>

text \<open>\<^verbatim>\<open>while (digits.size() > 1 && digits.back() == 0) digits.pop_back();\<close>\<close>

function removeLeadingZeros :: "int list \<Rightarrow> int list" where
  "removeLeadingZeros ds =
     (if 1 < length ds \<and> last ds = 0 then removeLeadingZeros (butlast ds) else ds)"
  by pat_completeness auto
termination
  by (relation "measure length") auto

declare removeLeadingZeros.simps [simp del]

definition isZero :: "BigInt \<Rightarrow> bool" where
  "isZero b \<longleftrightarrow> length (digits b) = 1 \<and> digits b ! 0 = 0"

definition normalize :: "BigInt \<Rightarrow> BigInt" where
  "normalize b =
     (let ds = removeLeadingZeros (digits b)
      in if length ds = 1 \<and> ds ! 0 = 0 then \<lparr>digits = ds, negative = False\<rparr>
         else \<lparr>digits = ds, negative = negative b\<rparr>)"

text \<open>
  The loop of \<^verbatim>\<open>compareMagnitude\<close>, \<^verbatim>\<open>for (int i = size - 1; i >= 0; --i)\<close>, with
  \<open>k = i + 1\<close> as the counter. It runs only on vectors of the same length.
\<close>

fun compare_from :: "int list \<Rightarrow> int list \<Rightarrow> nat \<Rightarrow> int" where
  "compare_from xs ys 0 = 0"
| "compare_from xs ys (Suc i) =
     (if xs ! i \<noteq> ys ! i then (if xs ! i < ys ! i then - 1 else 1)
      else compare_from xs ys i)"

definition compareMagnitude :: "BigInt \<Rightarrow> BigInt \<Rightarrow> int" where
  "compareMagnitude a b =
     (if length (digits a) \<noteq> length (digits b)
      then (if length (digits a) < length (digits b) then - 1 else 1)
      else compare_from (digits a) (digits b) (length (digits a)))"

section \<open>Comparison and unary operators\<close>

definition op_eq :: "BigInt \<Rightarrow> BigInt \<Rightarrow> bool" where
  "op_eq a b \<longleftrightarrow> negative a = negative b \<and> digits a = digits b"

definition op_lt :: "BigInt \<Rightarrow> BigInt \<Rightarrow> bool" where
  "op_lt a b =
     (if negative a \<noteq> negative b then negative a
      else if negative a then 0 < compareMagnitude a b
      else compareMagnitude a b < 0)"

definition op_le :: "BigInt \<Rightarrow> BigInt \<Rightarrow> bool" where
  "op_le a b \<longleftrightarrow> op_lt a b \<or> op_eq a b"

definition op_gt :: "BigInt \<Rightarrow> BigInt \<Rightarrow> bool" where
  "op_gt a b \<longleftrightarrow> \<not> op_le a b"

definition op_ge :: "BigInt \<Rightarrow> BigInt \<Rightarrow> bool" where
  "op_ge a b \<longleftrightarrow> \<not> op_lt a b"

text \<open>Unary minus copies the value and flips the flag; it does not call \<^verbatim>\<open>normalize\<close>.\<close>

definition op_neg :: "BigInt \<Rightarrow> BigInt" where
  "op_neg a = \<lparr>digits = digits a, negative = \<not> negative a\<rparr>"

definition isNegative :: "BigInt \<Rightarrow> bool" where
  "isNegative b \<longleftrightarrow> negative b \<and> \<not> isZero b"

definition abs_big :: "BigInt \<Rightarrow> BigInt" where
  "abs_big num = (if isNegative num then op_neg num else num)"

section \<open>Constructors\<close>

text \<open>
  \<^verbatim>\<open>BigInt(long long num)\<close>. The argument is a 64-bit two's-complement value; \<^verbatim>\<open>num = -num\<close>
  is modelled as the negation of that machine word, which maps \<open>- 2 ^ 63\<close> to itself (in
  C++ the overflow is undefined behaviour; the wrapped value is what the hardware negation
  gives). The loop \<^verbatim>\<open>while (num > 0) { digits.push_back(num % 10); num /= 10; }\<close> then runs
  on the signed value of the word.
\<close>

function ll_digits :: "int \<Rightarrow> int list \<Rightarrow> int list" where
  "ll_digits num ds = (if 0 < num then ll_digits (num sdiv 10) (ds @ [num smod 10]) else ds)"
  by pat_completeness auto
termination
  by (relation "measure (\<lambda>(num, ds). nat num)") (auto simp: signed_divide_int_def sgn_if)

declare ll_digits.simps [simp del]

definition BigInt_of_ll :: "64 word \<Rightarrow> BigInt" where
  "BigInt_of_ll n =
     (let neg = (sint n < 0);
          num = (if sint n < 0 then sint (- n) else sint n)
      in if num = 0 then \<lparr>digits = [0], negative = neg\<rparr>
         else \<lparr>digits = ll_digits num [], negative = neg\<rparr>)"

definition ZERO :: BigInt where "ZERO = BigInt_of_ll 0"
definition ONE :: BigInt where "ONE = BigInt_of_ll 1"
definition TWO :: BigInt where "TWO = BigInt_of_ll 2"

text \<open>
  \<^verbatim>\<open>BigInt(const std::string& str)\<close>. The loop counter is a \<^verbatim>\<open>size_t\<close>:
  \<^verbatim>\<open>for (size_t i = str.length() - 1; i >= start; --i)\<close>. Decrementing \<open>0\<close> gives
  \<^verbatim>\<open>SIZE_MAX\<close>, and \<^verbatim>\<open>str[i]\<close> for an \<open>i\<close> beyond the length is undefined behaviour
  (no \<^verbatim>\<open>std::string\<close> is as long as \<^verbatim>\<open>SIZE_MAX\<close>). The counter starts at the last
  character and only moves down or wraps, so it never stands on the terminator at
  \<open>i = length\<close>.
\<close>

definition SIZE_MAX :: nat where
  "SIZE_MAX = 2 ^ 64 - 1"

definition size_dec :: "nat \<Rightarrow> nat" where
  "size_dec i = (if i = 0 then SIZE_MAX else i - 1)"

definition isdigit :: "char \<Rightarrow> bool" where
  "isdigit c \<longleftrightarrow> (48::nat) \<le> of_char c \<and> of_char c \<le> (57::nat)"

definition digit_of_char :: "char \<Rightarrow> int" where
  "digit_of_char c = of_char c - 48"

function parse_digits :: "string \<Rightarrow> nat \<Rightarrow> nat \<Rightarrow> int list \<Rightarrow> error + int list" where
  "parse_digits str start i ds =
     (if i < start then Inr ds
      else if length str \<le> i \<or> SIZE_MAX \<le> i then Inl UndefinedBehaviour
      else if \<not> isdigit (str ! i) then Inl InvalidInput
      else parse_digits str start (size_dec i) (ds @ [digit_of_char (str ! i)]))"
  by pat_completeness auto
termination
  by (relation "measure (\<lambda>(str, start, i, ds). if i < length str \<and> i < SIZE_MAX then i + 1 else 0)")
     (auto simp: size_dec_def)

declare parse_digits.simps [simp del]

definition BigInt_of_string :: "string \<Rightarrow> error + BigInt" where
  "BigInt_of_string str =
     (if str = [] then Inl InvalidInput
      else
        let neg = (str ! 0 = CHR ''-'');
            start = (if str ! 0 = CHR ''-'' \<or> str ! 0 = CHR ''+'' then 1 else 0)
        in if length str \<le> start then Inl InvalidInput
           else (case parse_digits str start (length str - 1) [] of
                   Inl e \<Rightarrow> Inl e
                 | Inr ds \<Rightarrow> Inr (normalize \<lparr>digits = ds, negative = neg\<rparr>)))"

section \<open>Conversion\<close>

text \<open>\<^verbatim>\<open>result += '0' + digits[i]\<close>: the sum is narrowed to a \<^verbatim>\<open>char\<close>.\<close>

definition digit_char :: "int \<Rightarrow> char" where
  "digit_char d = char_of (48 + d)"

definition toString :: "BigInt \<Rightarrow> string" where
  "toString b =
     (if isZero b then ''0''
      else (if negative b then ''-'' else '''') @ map digit_char (rev (digits b)))"

definition LLONG_MAX :: "64 word" where
  "LLONG_MAX = 2 ^ 63 - 1"

definition LLONG_MIN :: "64 word" where
  "LLONG_MIN = - (2 ^ 63)"

text \<open>
  \<^verbatim>\<open>toLongLong\<close>: the accumulator \<^verbatim>\<open>result = result * 10 + digits[i]\<close> is a
  \<^verbatim>\<open>long long\<close>, a 64-bit word.
\<close>

definition toLongLong :: "BigInt \<Rightarrow> error + 64 word" where
  "toLongLong b =
     (if op_gt b (BigInt_of_ll LLONG_MAX) \<or> op_lt b (BigInt_of_ll LLONG_MIN)
      then Inl OutOfRange
      else
        let result = foldl (\<lambda>r d. r * 10 + word_of_int d) 0 (rev (digits b))
        in Inr (if negative b then - result else result))"

section \<open>Addition and subtraction\<close>

text \<open>
  The same-sign branch of \<^verbatim>\<open>operator+\<close>:
  \<^verbatim>\<open>for (size_t i = 0; i < maxSize || carry; ++i)\<close>, pushing \<^verbatim>\<open>sum % 10\<close> and carrying
  \<^verbatim>\<open>sum / 10\<close>.
\<close>

function add_loop :: "int list \<Rightarrow> int list \<Rightarrow> nat \<Rightarrow> int \<Rightarrow> int list \<Rightarrow> int list" where
  "add_loop xs ys i carry res =
     (if i < max (length xs) (length ys) \<or> carry \<noteq> 0 then
        let sum = carry + (if i < length xs then xs ! i else 0)
                        + (if i < length ys then ys ! i else 0)
        in add_loop xs ys (i + 1) (sum sdiv 10) (res @ [sum smod 10])
      else res)"
  by pat_completeness auto
termination
proof (relation "measures [\<lambda>(xs, ys, i, carry, res). max (length xs) (length ys) - i,
                          \<lambda>(xs, ys, i, carry, res). nat \<bar>carry\<bar>]", goal_cases)
  case 1
  show ?case by simp
next
  case (2 xs ys i carry res sum)
  have less: "c \<noteq> 0 \<Longrightarrow> nat \<bar>c sdiv 10\<bar> < nat \<bar>c\<bar>" for c :: int
    by (simp add: signed_divide_int_def abs_mult abs_sgn_eq)
  show ?case
  proof (cases "i < max (length xs) (length ys)")
    case True
    then show ?thesis by auto
  next
    case False
    with 2 have "carry \<noteq> 0" and "sum = carry" by auto
    with False less [of carry] show ?thesis by auto
  qed
qed

declare add_loop.simps [simp del]

text \<open>
  The digit loop of \<^verbatim>\<open>operator-\<close>, reached only with both operands non-negative and the
  left one not smaller: \<^verbatim>\<open>for (size_t i = 0; i < digits.size(); ++i)\<close> with a borrow.
\<close>

function sub_loop :: "int list \<Rightarrow> int list \<Rightarrow> nat \<Rightarrow> int \<Rightarrow> int list \<Rightarrow> int list" where
  "sub_loop xs ys i borrow res =
     (if i < length xs then
        let diff = xs ! i - borrow - (if i < length ys then ys ! i else 0)
        in if diff < 0 then sub_loop xs ys (i + 1) 1 (res @ [diff + 10])
           else sub_loop xs ys (i + 1) 0 (res @ [diff])
      else res)"
  by pat_completeness auto
termination
  by (relation "measure (\<lambda>(xs, ys, i, borrow, res). length xs - i)") auto

declare sub_loop.simps [simp del]

text \<open>
  \<^verbatim>\<open>operator+\<close> and \<^verbatim>\<open>operator-\<close> call each other: operands of different sign are sent to
  the other operator with one of them negated.
\<close>

function op_add :: "BigInt \<Rightarrow> BigInt \<Rightarrow> BigInt"
  and op_sub :: "BigInt \<Rightarrow> BigInt \<Rightarrow> BigInt" where
  "op_add a b =
     (if negative a \<noteq> negative b then
        (if negative a then op_sub b (op_neg a) else op_sub a (op_neg b))
      else \<lparr>digits = add_loop (digits a) (digits b) 0 0 [], negative = negative a\<rparr>)"
| "op_sub a b =
     (if negative a \<noteq> negative b then
        (if negative a then op_neg (op_add (op_neg a) b) else op_add a (op_neg b))
      else if negative a then op_sub (op_neg b) (op_neg a)
      else if op_lt a b then op_neg (op_sub b a)
      else normalize \<lparr>digits = sub_loop (digits a) (digits b) 0 0 [], negative = False\<rparr>)"
  by pat_completeness auto
termination
proof -
  have flip: "compare_from xs ys k < 0 \<Longrightarrow> \<not> compare_from ys xs k < 0" for xs ys k
    by (induction k) (auto split: if_splits)
  have asym: "\<not> negative a \<Longrightarrow> \<not> negative b \<Longrightarrow> op_lt a b \<Longrightarrow> \<not> op_lt b a" for a b
    using flip [of "digits a" "digits b" "length (digits a)"]
    by (auto simp: op_lt_def compareMagnitude_def split: if_splits)
  show ?thesis
    by (relation "measure (\<lambda>x. case x of
            Inl (a, b) \<Rightarrow> (if negative a \<noteq> negative b then 3 else 0)
          | Inr (a, b) \<Rightarrow> (if negative a \<noteq> negative b then 1
                           else if negative a then 2
                           else if op_lt a b then 1 else (0::nat)))")
       (auto simp: op_neg_def dest: asym)
qed

declare op_add.simps [simp del] op_sub.simps [simp del]

section \<open>Multiplication\<close>

text \<open>
  The inner loop of \<^verbatim>\<open>schoolbookMultiply\<close>,
  \<^verbatim>\<open>for (size_t j = 0; j < other.digits.size() || carry; ++j)\<close>, reads and writes
  \<^verbatim>\<open>result.digits[i + j]\<close>; the vector has a fixed size, and an index beyond it is
  undefined behaviour.
\<close>

function mul_inner :: "int \<Rightarrow> int list \<Rightarrow> nat \<Rightarrow> nat \<Rightarrow> int \<Rightarrow> int list \<Rightarrow> error + int list" where
  "mul_inner d ys i j carry res =
     (if j < length ys \<or> carry \<noteq> 0 then
        (if length res \<le> i + j then Inl UndefinedBehaviour
         else
           let product = res ! (i + j) + carry + (if j < length ys then d * ys ! j else 0)
           in mul_inner d ys i (j + 1) (product sdiv 10) (res[i + j := product smod 10]))
      else Inr res)"
  by pat_completeness auto
termination
  by (relation "measure (\<lambda>(d, ys, i, j, carry, res). length res - (i + j))") auto

declare mul_inner.simps [simp del]

function mul_outer :: "int list \<Rightarrow> int list \<Rightarrow> nat \<Rightarrow> int list \<Rightarrow> error + int list" where
  "mul_outer xs ys i res =
     (if i < length xs then
        (case mul_inner (xs ! i) ys i 0 0 res of
           Inl e \<Rightarrow> Inl e
         | Inr res' \<Rightarrow> mul_outer xs ys (i + 1) res')
      else Inr res)"
  by pat_completeness auto
termination
  by (relation "measure (\<lambda>(xs, ys, i, res). length xs - i)") auto

declare mul_outer.simps [simp del]

definition schoolbookMultiply :: "BigInt \<Rightarrow> BigInt \<Rightarrow> error + BigInt" where
  "schoolbookMultiply a b =
     (case mul_outer (digits a) (digits b) 0
             (replicate (length (digits a) + length (digits b)) 0) of
        Inl e \<Rightarrow> Inl e
      | Inr ds \<Rightarrow> Inr (normalize \<lparr>digits = ds, negative = False\<rparr>))"

definition op_mul :: "BigInt \<Rightarrow> BigInt \<Rightarrow> error + BigInt" where
  "op_mul a b =
     (if isZero a \<or> isZero b then Inr ZERO
      else (case schoolbookMultiply a b of
              Inl e \<Rightarrow> Inl e
            | Inr r \<Rightarrow> Inr (normalize (r\<lparr>negative := (negative a \<noteq> negative b)\<rparr>))))"

section \<open>Division\<close>

text \<open>
  \<^verbatim>\<open>while (remainder >= divisorAbs) { remainder = remainder - divisorAbs; digit++; }\<close>.
  Nothing in the loop itself bounds the number of rounds (on a divisor whose digits are all
  zero but more than one it never ends), so the loop is a partial function.
\<close>

partial_function (option) sub_while :: "BigInt \<Rightarrow> BigInt \<Rightarrow> int \<Rightarrow> (BigInt \<times> int) option" where
  "sub_while remainder divisorAbs digit =
     (if op_ge remainder divisorAbs
      then sub_while (op_sub remainder divisorAbs) divisorAbs (digit + 1)
      else Some (remainder, digit))"

declare sub_while.simps [code]

text \<open>
  The column loop of \<^verbatim>\<open>divideWithRemainder\<close>,
  \<^verbatim>\<open>for (int i = current.digits.size() - 1; i >= 0; --i)\<close>, with \<open>k = i + 1\<close> as the
  counter: the next digit is inserted at the front of the remainder, the remainder is
  normalised and reduced, and the count is inserted at the front of the quotient.
\<close>

fun div_loop :: "int list \<Rightarrow> BigInt \<Rightarrow> nat \<Rightarrow> BigInt \<Rightarrow> BigInt \<Rightarrow> (BigInt \<times> BigInt) option" where
  "div_loop cur divisorAbs 0 quot remainder = Some (quot, remainder)"
| "div_loop cur divisorAbs (Suc i) quot remainder =
     (case sub_while (normalize (remainder\<lparr>digits := cur ! i # digits remainder\<rparr>)) divisorAbs 0 of
        None \<Rightarrow> None
      | Some (r, digit) \<Rightarrow>
          div_loop cur divisorAbs i (quot\<lparr>digits := digit # digits quot\<rparr>) r)"

definition divideWithRemainder :: "BigInt \<Rightarrow> BigInt \<Rightarrow> (BigInt \<times> BigInt) option" where
  "divideWithRemainder dividend divisor =
     (if isZero dividend then Some (ZERO, ZERO)
      else
        let current = abs_big dividend;
            divisorAbs = abs_big divisor
        in (case div_loop (digits current) divisorAbs (length (digits current))
                   \<lparr>digits = [0], negative = False\<rparr> \<lparr>digits = [0], negative = False\<rparr> of
              None \<Rightarrow> None
            | Some (q, r) \<Rightarrow> Some (normalize q, r)))"

definition op_div :: "BigInt \<Rightarrow> BigInt \<Rightarrow> BigInt res" where
  "op_div a b =
     (if isZero b then Some (Inl DivisionByZero)
      else (case divideWithRemainder a b of
              None \<Rightarrow> None
            | Some (q, r) \<Rightarrow> Some (Inr (normalize (q\<lparr>negative := (negative a \<noteq> negative b)\<rparr>)))))"

definition op_mod :: "BigInt \<Rightarrow> BigInt \<Rightarrow> BigInt res" where
  "op_mod a b =
     (if isZero b then Some (Inl DivisionByZero)
      else (case divideWithRemainder a b of
              None \<Rightarrow> None
            | Some (q, r) \<Rightarrow> Some (Inr (normalize (r\<lparr>negative := negative a\<rparr>)))))"

section \<open>Mathematical functions\<close>

text \<open>The loop of \<^verbatim>\<open>pow\<close>: \<^verbatim>\<open>while (!e.isZero())\<close>, square and multiply.\<close>

partial_function (option) pow_loop :: "BigInt \<Rightarrow> BigInt \<Rightarrow> BigInt \<Rightarrow> BigInt res" where
  "pow_loop result b e =
     (if isZero e then Some (Inr result)
      else (case op_mod e TWO of
              None \<Rightarrow> None
            | Some (Inl err) \<Rightarrow> Some (Inl err)
            | Some (Inr m) \<Rightarrow>
                (case (if op_eq m ONE then op_mul result b else Inr result) of
                   Inl err \<Rightarrow> Some (Inl err)
                 | Inr result' \<Rightarrow>
                     (case op_mul b b of
                        Inl err \<Rightarrow> Some (Inl err)
                      | Inr b' \<Rightarrow>
                          (case op_div e TWO of
                             None \<Rightarrow> None
                           | Some (Inl err) \<Rightarrow> Some (Inl err)
                           | Some (Inr e') \<Rightarrow> pow_loop result' b' e')))))"

declare pow_loop.simps [code]

definition pow :: "BigInt \<Rightarrow> BigInt \<Rightarrow> BigInt res" where
  "pow base exponent =
     (if op_lt exponent ZERO then Some (Inl InvalidInput)
      else if isZero exponent then Some (Inr ONE)
      else pow_loop (BigInt_of_ll 1) base exponent)"

text \<open>\<^verbatim>\<open>operator^\<close> is the power, not the bitwise exclusive or.\<close>

definition op_pow :: "BigInt \<Rightarrow> BigInt \<Rightarrow> BigInt res" where
  "op_pow a b = pow a b"

text \<open>The binary search of \<^verbatim>\<open>sqrt\<close>: \<^verbatim>\<open>while (left <= right)\<close>.\<close>

partial_function (option) sqrt_loop :: "BigInt \<Rightarrow> BigInt \<Rightarrow> BigInt \<Rightarrow> BigInt \<Rightarrow> BigInt res" where
  "sqrt_loop n left right result =
     (if op_le left right then
        (case op_div (op_add left right) TWO of
           None \<Rightarrow> None
         | Some (Inl err) \<Rightarrow> Some (Inl err)
         | Some (Inr mid) \<Rightarrow>
             (case op_mul mid mid of
                Inl err \<Rightarrow> Some (Inl err)
              | Inr square \<Rightarrow>
                  if op_le square n then sqrt_loop n (op_add mid ONE) right mid
                  else sqrt_loop n left (op_sub mid ONE) result))
      else Some (Inr result))"

declare sqrt_loop.simps [code]

definition sqrt_big :: "BigInt \<Rightarrow> BigInt res" where
  "sqrt_big n =
     (if op_lt n ZERO then Some (Inl InvalidInput)
      else if op_le n ONE then Some (Inr n)
      else sqrt_loop n (BigInt_of_ll 1) n (BigInt_of_ll 1))"

text \<open>
  \<^verbatim>\<open>while (num % p == ZERO) { num = num / p; count++; }\<close>: the loop that
  \<^verbatim>\<open>primeFactorization\<close> runs for \<open>2\<close> and then for every odd candidate.
\<close>

partial_function (option) divide_out :: "BigInt \<Rightarrow> BigInt \<Rightarrow> int \<Rightarrow> (BigInt \<times> int) res" where
  "divide_out num p count =
     (case op_mod num p of
        None \<Rightarrow> None
      | Some (Inl err) \<Rightarrow> Some (Inl err)
      | Some (Inr m) \<Rightarrow>
          if op_eq m ZERO then
            (case op_div num p of
               None \<Rightarrow> None
             | Some (Inl err) \<Rightarrow> Some (Inl err)
             | Some (Inr q) \<Rightarrow> divide_out q p (count + 1))
          else Some (Inr (num, count)))"

declare divide_out.simps [code]

text \<open>\<^verbatim>\<open>while (i <= sqrtNum) { ...; i += TWO; }\<close>, the bound computed once before the loop.\<close>

partial_function (option) odd_loop ::
    "BigInt \<Rightarrow> BigInt \<Rightarrow> BigInt \<Rightarrow> (BigInt \<times> int) list \<Rightarrow> (BigInt \<times> (BigInt \<times> int) list) res" where
  "odd_loop i sqrtNum num factors =
     (if op_le i sqrtNum then
        (case divide_out num i 0 of
           None \<Rightarrow> None
         | Some (Inl err) \<Rightarrow> Some (Inl err)
         | Some (Inr (num', count)) \<Rightarrow>
             odd_loop (op_add i TWO) sqrtNum num'
               (if 0 < count then factors @ [(i, count)] else factors))
      else Some (Inr (num, factors)))"

declare odd_loop.simps [code]

definition primeFactorization :: "BigInt \<Rightarrow> (BigInt \<times> int) list res" where
  "primeFactorization n =
     (let num = abs_big n
      in if op_le num ONE then Some (Inr [])
         else (case divide_out num TWO 0 of
                 None \<Rightarrow> None
               | Some (Inl err) \<Rightarrow> Some (Inl err)
               | Some (Inr (num1, count)) \<Rightarrow>
                   (case sqrt_big num1 of
                      None \<Rightarrow> None
                    | Some (Inl err) \<Rightarrow> Some (Inl err)
                    | Some (Inr sqrtNum) \<Rightarrow>
                        (case odd_loop (BigInt_of_ll 3) sqrtNum num1
                                (if 0 < count then [(TWO, count)] else []) of
                           None \<Rightarrow> None
                         | Some (Inl err) \<Rightarrow> Some (Inl err)
                         | Some (Inr (num2, factors)) \<Rightarrow>
                             Some (Inr (if op_gt num2 ONE then factors @ [(num2, 1)]
                                        else factors))))))"

section \<open>The integer a value stands for\<close>

text \<open>The magnitude of a digit vector, least-significant digit first, in base ten.\<close>

fun val :: "int list \<Rightarrow> int" where
  "val [] = 0"
| "val (d # ds) = d + 10 * val ds"

definition digits_ok :: "int list \<Rightarrow> bool" where
  "digits_ok ds \<longleftrightarrow> list_all (\<lambda>d. 0 \<le> d \<and> d \<le> 9) ds"

text \<open>
  The canonical form of the data model: at least one digit, every digit in \<open>0..9\<close>, no
  most-significant zero except in the one-digit zero, and zero never negative.
\<close>

definition canonical :: "BigInt \<Rightarrow> bool" where
  "canonical b \<longleftrightarrow>
     digits b \<noteq> [] \<and> digits_ok (digits b)
     \<and> \<not> (1 < length (digits b) \<and> last (digits b) = 0)
     \<and> \<not> (digits b = [0] \<and> negative b)"

definition value_of :: "BigInt \<Rightarrow> int" where
  "value_of b = (if negative b then - val (digits b) else val (digits b))"

text \<open>
  What the factorisation is measured against: primality of an integer by trial of every
  candidate divisor, and the product of the listed prime powers.
\<close>

definition is_prime :: "int \<Rightarrow> bool" where
  "is_prime p \<longleftrightarrow> 1 < p \<and> list_all (\<lambda>d. \<not> d dvd p) [2..p - 1]"

fun factors_product :: "(BigInt \<times> int) list \<Rightarrow> int" where
  "factors_product [] = 1"
| "factors_product ((f, c) # fs) = value_of f ^ nat c * factors_product fs"

section \<open>Digit vectors and their magnitude\<close>

lemma val_append: "val (xs @ ys) = val xs + 10 ^ length xs * val ys"
  by (induction xs) (auto simp: algebra_simps)

lemma digits_ok_Nil [simp]: "digits_ok []"
  by (simp add: digits_ok_def)

lemma digits_ok_Cons [simp]: "digits_ok (d # ds) \<longleftrightarrow> 0 \<le> d \<and> d \<le> 9 \<and> digits_ok ds"
  by (simp add: digits_ok_def)

lemma digits_ok_append [simp]: "digits_ok (xs @ ys) \<longleftrightarrow> digits_ok xs \<and> digits_ok ys"
  by (simp add: digits_ok_def)

lemma digits_ok_nth: "digits_ok ds \<Longrightarrow> i < length ds \<Longrightarrow> 0 \<le> ds ! i \<and> ds ! i \<le> 9"
  by (simp add: digits_ok_def list_all_length)

lemma digits_ok_drop: "digits_ok ds \<Longrightarrow> digits_ok (drop i ds)"
  by (simp add: digits_ok_def list_all_iff) (meson in_set_dropD)

lemma digits_ok_take: "digits_ok ds \<Longrightarrow> digits_ok (take i ds)"
  by (simp add: digits_ok_def list_all_iff) (meson in_set_takeD)

lemma digits_ok_butlast: "digits_ok ds \<Longrightarrow> digits_ok (butlast ds)"
  by (simp add: digits_ok_def list_all_iff) (meson in_set_butlastD)

lemma digits_ok_update: "digits_ok ds \<Longrightarrow> 0 \<le> d \<Longrightarrow> d \<le> 9 \<Longrightarrow> digits_ok (ds[i := d])"
  by (induction ds arbitrary: i) (auto split: nat.splits)

lemma digits_ok_replicate [simp]: "digits_ok (replicate n 0)"
  by (simp add: digits_ok_def list_all_iff)

lemma val_nonneg: "digits_ok ds \<Longrightarrow> 0 \<le> val ds"
  by (induction ds) auto

lemma val_upper: "digits_ok ds \<Longrightarrow> val ds < 10 ^ length ds"
  by (induction ds) auto

lemma val_replicate [simp]: "val (replicate n 0) = 0"
  by (induction n) auto

lemma val_last_lower:
  "digits_ok ds \<Longrightarrow> ds \<noteq> [] \<Longrightarrow> 10 ^ (length ds - 1) * last ds \<le> val ds"
proof (induction ds)
  case Nil
  then show ?case by simp
next
  case (Cons d ds)
  show ?case
  proof (cases "ds = []")
    case True
    then show ?thesis by simp
  next
    case False
    with Cons have "10 ^ (length ds - 1) * last ds \<le> val ds" by simp
    moreover from False have "length ds = Suc (length ds - 1)" by simp
    then have "(10::int) ^ length ds = 10 * 10 ^ (length ds - 1)"
      by (metis power_Suc)
    ultimately show ?thesis
      using Cons.prems False by (simp add: algebra_simps)
  qed
qed

lemma val_pos_of_last:
  assumes "digits_ok ds" "ds \<noteq> []" "last ds \<noteq> 0"
  shows "10 ^ (length ds - 1) \<le> val ds"
proof -
  from assms have "0 \<le> last ds" 
    using digits_ok_nth [of ds "length ds - 1"] by (simp add: last_conv_nth)
  with assms have "1 \<le> last ds" by simp
  then have "(10::int) ^ (length ds - 1) \<le> 10 ^ (length ds - 1) * last ds"
    using mult_left_mono [of 1 "last ds" "10 ^ (length ds - 1)"] by simp
  then show ?thesis
    by (rule order_trans) (rule val_last_lower [OF assms(1,2)])
qed

lemma val_update:
  "i < length ds \<Longrightarrow> val (ds[i := d]) = val ds + 10 ^ i * (d - ds ! i)"
proof (induction ds arbitrary: i)
  case Nil
  then show ?case by simp
next
  case (Cons x xs)
  show ?case
  proof (cases i)
    case 0
    then show ?thesis by simp
  next
    case (Suc j)
    with Cons.prems have "j < length xs" by simp
    then have "val (xs[j := d]) = val xs + 10 ^ j * (d - xs ! j)" by (rule Cons.IH)
    with Suc show ?thesis by (simp add: algebra_simps)
  qed
qed

lemma val_take_drop:
  "i \<le> length ds \<Longrightarrow> val ds = val (take i ds) + 10 ^ i * val (drop i ds)"
  using val_append [of "take i ds" "drop i ds"] by (simp add: min_absorb2)

lemma val_drop_Suc:
  "i < length ds \<Longrightarrow> val (drop i ds) = ds ! i + 10 * val (drop (Suc i) ds)"
  by (simp add: Cons_nth_drop_Suc [symmetric])

lemma val_take_Suc:
  "i < length ds \<Longrightarrow> val (take (Suc i) ds) = val (take i ds) + 10 ^ i * ds ! i"
  by (simp add: take_Suc_conv_app_nth val_append)

text \<open>Digit vectors of the same length with the same magnitude are equal.\<close>

lemma val_inject:
  "digits_ok xs \<Longrightarrow> digits_ok ys \<Longrightarrow> length xs = length ys \<Longrightarrow> val xs = val ys \<Longrightarrow> xs = ys"
proof (induction xs arbitrary: ys)
  case Nil
  then show ?case by simp
next
  case (Cons x xs)
  then obtain y ys' where ys: "ys = y # ys'" by (cases ys) auto
  with Cons.prems have eq: "x + 10 * val xs = y + 10 * val ys'"
    and bounds: "0 \<le> x" "x \<le> 9" "0 \<le> y" "y \<le> 9" by auto
  then have "x = y" by presburger
  with eq have "val xs = val ys'" by simp
  with Cons ys \<open>x = y\<close> show ?case by simp
qed

section \<open>Normal form and comparison\<close>

lemma removeLeadingZeros_step:
  "1 < length ds \<Longrightarrow> last ds = 0 \<Longrightarrow> removeLeadingZeros ds = removeLeadingZeros (butlast ds)"
  by (subst removeLeadingZeros.simps) simp

lemma removeLeadingZeros_id:
  "\<not> (1 < length ds \<and> last ds = 0) \<Longrightarrow> removeLeadingZeros ds = ds"
  by (subst removeLeadingZeros.simps) auto

lemma removeLeadingZeros_val: "val (removeLeadingZeros ds) = val ds"
proof (induction ds rule: removeLeadingZeros.induct)
  case (1 ds)
  show ?case
  proof (cases "1 < length ds \<and> last ds = 0")
    case True
    then have "ds = butlast ds @ [0]"
      by (metis append_butlast_last_id length_greater_0_conv less_trans zero_less_one)
    then have "val ds = val (butlast ds)"
      by (metis add.right_neutral mult_zero_right val.simps val_append)
    with True 1 show ?thesis by (simp add: removeLeadingZeros_step)
  next
    case False
    then have "removeLeadingZeros ds = ds" by (rule removeLeadingZeros_id)
    then show ?thesis by simp
  qed
qed

lemma removeLeadingZeros_ok: "digits_ok ds \<Longrightarrow> digits_ok (removeLeadingZeros ds)"
proof (induction ds rule: removeLeadingZeros.induct)
  case (1 ds)
  show ?case
  proof (cases "1 < length ds \<and> last ds = 0")
    case True
    with 1 show ?thesis by (simp add: removeLeadingZeros_step digits_ok_butlast)
  next
    case False
    then have "removeLeadingZeros ds = ds" by (rule removeLeadingZeros_id)
    with 1 show ?thesis by simp
  qed
qed

lemma removeLeadingZeros_nonempty: "ds \<noteq> [] \<Longrightarrow> removeLeadingZeros ds \<noteq> []"
proof (induction ds rule: removeLeadingZeros.induct)
  case (1 ds)
  show ?case
  proof (cases "1 < length ds \<and> last ds = 0")
    case True
    then have "butlast ds \<noteq> []"
      by (cases ds) (auto split: if_splits)
    with True 1 show ?thesis by (simp add: removeLeadingZeros_step)
  next
    case False
    then have "removeLeadingZeros ds = ds" by (rule removeLeadingZeros_id)
    with 1 show ?thesis by simp
  qed
qed

lemma removeLeadingZeros_top:
  "\<not> (1 < length (removeLeadingZeros ds) \<and> last (removeLeadingZeros ds) = 0)"
proof (induction ds rule: removeLeadingZeros.induct)
  case (1 ds)
  show ?case
  proof (cases "1 < length ds \<and> last ds = 0")
    case True
    with 1 show ?thesis by (simp add: removeLeadingZeros_step)
  next
    case False
    then have "removeLeadingZeros ds = ds" by (rule removeLeadingZeros_id)
    with False show ?thesis by simp
  qed
qed

lemma digits_normalize: "digits (normalize b) = removeLeadingZeros (digits b)"
  by (simp add: normalize_def Let_def)

lemma single_zero_iff: "length ds = Suc 0 \<and> ds ! 0 = 0 \<longleftrightarrow> ds = [0::int]"
  by (cases ds) auto

lemma isZero_iff: "isZero b \<longleftrightarrow> digits b = [0]"
  by (simp add: isZero_def single_zero_iff)

lemma negative_normalize:
  "negative (normalize b) \<longleftrightarrow> negative b \<and> removeLeadingZeros (digits b) \<noteq> [0]"
  by (simp add: normalize_def Let_def single_zero_iff)

lemma canonical_normalize:
  "digits b \<noteq> [] \<Longrightarrow> digits_ok (digits b) \<Longrightarrow> canonical (normalize b)"
  using removeLeadingZeros_top [of "digits b"]
  by (simp add: canonical_def digits_normalize negative_normalize removeLeadingZeros_ok
      removeLeadingZeros_nonempty)

lemma value_of_normalize: "value_of (normalize b) = value_of b"
proof (cases "removeLeadingZeros (digits b) = [0]")
  case True
  then have "val (digits b) = 0"
    using removeLeadingZeros_val [of "digits b"] by simp
  with True show ?thesis
    by (simp add: value_of_def digits_normalize negative_normalize removeLeadingZeros_val)
next
  case False
  then show ?thesis
    by (simp add: value_of_def digits_normalize negative_normalize removeLeadingZeros_val)
qed

lemma normalize_id: "canonical b \<Longrightarrow> normalize b = b"
  by (auto simp: canonical_def normalize_def Let_def removeLeadingZeros_id single_zero_iff)

lemma canonical_val_lower:
  assumes "canonical b" "1 < length (digits b)"
  shows "10 ^ (length (digits b) - 1) \<le> val (digits b)"
  using assms val_pos_of_last [of "digits b"] by (auto simp: canonical_def)

lemma canonical_val_zero:
  assumes "canonical b"
  shows "val (digits b) = 0 \<longleftrightarrow> digits b = [0]"
proof
  assume zero: "val (digits b) = 0"
  show "digits b = [0]"
  proof (cases "1 < length (digits b)")
    case True
    have "(0::int) < 10 ^ (length (digits b) - 1)" by simp
    with canonical_val_lower [OF assms True] zero show ?thesis by linarith
  next
    case False
    with assms obtain d where d: "digits b = [d]"
      by (cases "digits b") (auto simp: canonical_def)
    with zero show ?thesis by simp
  qed
qed simp

lemma canonical_isZero: "canonical b \<Longrightarrow> isZero b \<longleftrightarrow> value_of b = 0"
  by (simp add: isZero_iff value_of_def canonical_val_zero)

lemma canonical_negative: 
  assumes "canonical b"
  shows "negative b \<longleftrightarrow> value_of b < 0"
proof -
  from assms have "0 \<le> val (digits b)" by (simp add: canonical_def val_nonneg)
  moreover from assms have "negative b \<Longrightarrow> val (digits b) \<noteq> 0"
    by (auto simp: canonical_val_zero canonical_def)
  ultimately show ?thesis by (auto simp: value_of_def)
qed

lemma canonical_val_length:
  assumes "canonical a" "canonical b" "length (digits a) < length (digits b)"
  shows "val (digits a) < val (digits b)"
proof -
  from assms have "val (digits a) < 10 ^ length (digits a)"
    by (simp add: canonical_def val_upper)
  also from assms(3) have "(10::int) ^ length (digits a) \<le> 10 ^ (length (digits b) - 1)"
    by (intro power_increasing) auto
  also have "\<dots> \<le> val (digits b)"
  proof (rule canonical_val_lower [OF assms(2)])
    from assms(1) have "0 < length (digits a)" by (simp add: canonical_def)
    with assms(3) show "1 < length (digits b)" by linarith
  qed
  finally show ?thesis .
qed

text \<open>A canonical value is determined by the integer it stands for.\<close>

lemma canonical_inject:
  assumes "canonical a" "canonical b" "value_of a = value_of b"
  shows "a = b"
proof -
  from assms have neg: "negative a = negative b"
    by (simp add: canonical_negative)
  with assms(3) have v: "val (digits a) = val (digits b)"
    by (simp add: value_of_def split: if_splits)
  have "length (digits a) = length (digits b)"
    using canonical_val_length [OF assms(1,2)] canonical_val_length [OF assms(2,1)] v
    by (cases "length (digits a)" "length (digits b)" rule: linorder_cases) auto
  with assms v have "digits a = digits b"
    by (intro val_inject) (auto simp: canonical_def)
  with neg show ?thesis by simp
qed

lemma compare_from_sgn:
  "digits_ok xs \<Longrightarrow> digits_ok ys \<Longrightarrow> k \<le> length xs \<Longrightarrow> k \<le> length ys \<Longrightarrow>
   compare_from xs ys k = sgn (val (take k xs) - val (take k ys))"
proof (induction k)
  case 0
  then show ?case by simp
next
  case (Suc k)
  let ?A = "val (take k xs)" and ?B = "val (take k ys)"
  from Suc.prems have k: "k < length xs" "k < length ys" by auto
  have A: "0 \<le> ?A" "?A < 10 ^ k"
    using Suc.prems val_nonneg [of "take k xs"] val_upper [of "take k xs"]
    by (auto simp: digits_ok_take min_absorb2)
  have B: "0 \<le> ?B" "?B < 10 ^ k"
    using Suc.prems val_nonneg [of "take k ys"] val_upper [of "take k ys"]
    by (auto simp: digits_ok_take min_absorb2)
  have IH: "compare_from xs ys k = sgn (?A - ?B)"
    using Suc by simp
  consider "xs ! k = ys ! k" | "xs ! k < ys ! k" | "ys ! k < xs ! k" by linarith
  then show ?case
  proof cases
    case 1
    with IH k show ?thesis by (simp add: val_take_Suc)
  next
    case 2
    then have "xs ! k + 1 \<le> ys ! k" by simp
    then have "10 ^ k * (xs ! k + 1) \<le> (10::int) ^ k * ys ! k"
      by (intro mult_left_mono) auto
    with A B have "?A + 10 ^ k * xs ! k - (?B + 10 ^ k * ys ! k) < 0"
      by (simp add: algebra_simps)
    with 2 k show ?thesis by (simp add: val_take_Suc)
  next
    case 3
    then have "ys ! k + 1 \<le> xs ! k" by simp
    then have "10 ^ k * (ys ! k + 1) \<le> (10::int) ^ k * xs ! k"
      by (intro mult_left_mono) auto
    with A B have "0 < ?A + 10 ^ k * xs ! k - (?B + 10 ^ k * ys ! k)"
      by (simp add: algebra_simps)
    with 3 k show ?thesis by (simp add: val_take_Suc)
  qed
qed

lemma compareMagnitude_sgn:
  assumes "canonical a" "canonical b"
  shows "compareMagnitude a b = sgn (val (digits a) - val (digits b))"
proof (cases "length (digits a) = length (digits b)")
  case True
  with assms show ?thesis
    using compare_from_sgn [of "digits a" "digits b" "length (digits a)"]
    by (simp add: compareMagnitude_def canonical_def)
next
  case False
  then consider "length (digits a) < length (digits b)" | "length (digits b) < length (digits a)"
    by linarith
  then show ?thesis
  proof cases
    case 1
    with canonical_val_length [OF assms 1] show ?thesis
      by (simp add: compareMagnitude_def)
  next
    case 2
    with canonical_val_length [OF assms(2,1) 2] show ?thesis
      by (simp add: compareMagnitude_def)
  qed
qed

lemma op_lt_iff:
  assumes "canonical a" "canonical b"
  shows "op_lt a b \<longleftrightarrow> value_of a < value_of b"
proof -
  have "0 \<le> val (digits a)" "0 \<le> val (digits b)"
    using assms by (simp_all add: canonical_def val_nonneg)
  moreover have "negative a \<Longrightarrow> val (digits a) \<noteq> 0" "negative b \<Longrightarrow> val (digits b) \<noteq> 0"
    using assms by (auto simp: canonical_val_zero canonical_def)
  ultimately show ?thesis
    by (auto simp: op_lt_def compareMagnitude_sgn [OF assms] value_of_def sgn_if
        split: if_splits)
qed

lemma op_eq_iff:
  assumes "canonical a" "canonical b"
  shows "op_eq a b \<longleftrightarrow> value_of a = value_of b"
proof
  assume "op_eq a b"
  then show "value_of a = value_of b" by (simp add: op_eq_def value_of_def)
next
  assume "value_of a = value_of b"
  with assms have "a = b" by (rule canonical_inject)
  then show "op_eq a b" by (simp add: op_eq_def)
qed

lemma op_le_iff: "canonical a \<Longrightarrow> canonical b \<Longrightarrow> op_le a b \<longleftrightarrow> value_of a \<le> value_of b"
  by (auto simp: op_le_def op_lt_iff op_eq_iff)

lemma op_gt_iff: "canonical a \<Longrightarrow> canonical b \<Longrightarrow> op_gt a b \<longleftrightarrow> value_of b < value_of a"
  by (auto simp: op_gt_def op_le_iff)

lemma op_ge_iff: "canonical a \<Longrightarrow> canonical b \<Longrightarrow> op_ge a b \<longleftrightarrow> value_of b \<le> value_of a"
  by (auto simp: op_ge_def op_lt_iff)

section \<open>The constants\<close>

lemma ZERO_eq: "ZERO = \<lparr>digits = [0], negative = False\<rparr>"
  by (simp add: ZERO_def BigInt_of_ll_def)

lemma ONE_eq: "ONE = \<lparr>digits = [1], negative = False\<rparr>"
  by (simp add: ONE_def BigInt_of_ll_def ll_digits.simps [of 1] ll_digits.simps [of 0]
      signed_divide_int_def signed_modulo_int_def)

lemma TWO_eq: "TWO = \<lparr>digits = [2], negative = False\<rparr>"
  by (simp add: TWO_def BigInt_of_ll_def ll_digits.simps [of 2] ll_digits.simps [of 0]
      signed_divide_int_def signed_modulo_int_def)

section \<open>The native-integer constructor at particular values\<close>

lemma sint_LLONG_MIN: "sint LLONG_MIN = - (2 ^ 63)" and sint_neg_LLONG_MIN: "sint (- LLONG_MIN) = - (2 ^ 63)"
  by (simp_all add: LLONG_MIN_def)

lemma sint_LLONG_MAX: "sint LLONG_MAX = 2 ^ 63 - 1"
  by (simp add: LLONG_MAX_def)

lemma BigInt_of_ll_LLONG_MIN: "BigInt_of_ll LLONG_MIN = \<lparr>digits = [], negative = True\<rparr>"
  by (simp add: BigInt_of_ll_def sint_LLONG_MIN sint_neg_LLONG_MIN ll_digits.simps)

lemma BigInt_of_ll_LLONG_MAX:
  "BigInt_of_ll LLONG_MAX =
     \<lparr>digits = [7, 0, 8, 5, 7, 7, 4, 5, 8, 6, 3, 0, 2, 7, 3, 3, 2, 2, 9], negative = False\<rparr>"
  by (simp add: BigInt_of_ll_def sint_LLONG_MAX ll_digits.simps signed_divide_int_def
      signed_modulo_int_def)

lemma BigInt_of_ll_m5: "BigInt_of_ll (- 5) = \<lparr>digits = [5], negative = True\<rparr>"
  by (simp add: BigInt_of_ll_def ll_digits.simps signed_divide_int_def signed_modulo_int_def)

lemma BigInt_of_ll_5: "BigInt_of_ll 5 = \<lparr>digits = [5], negative = False\<rparr>"
  by (simp add: BigInt_of_ll_def ll_digits.simps signed_divide_int_def signed_modulo_int_def)

section \<open>The digit loops of addition and subtraction\<close>

lemma sdiv10_nonneg: "0 \<le> a \<Longrightarrow> a sdiv 10 = a div (10::int)"
  by (simp add: signed_divide_int_def sgn_if)

lemma smod10_nonneg: "0 \<le> a \<Longrightarrow> a smod 10 = a mod (10::int)"
  by (simp add: signed_modulo_int_def sgn_if)

lemma val_drop_if:
  "val (drop i xs) = (if i < length xs then xs ! i else 0) + 10 * val (drop (Suc i) xs)"
  by (simp add: val_drop_Suc)

lemma digit_if_bounds:
  "digits_ok xs \<Longrightarrow> 0 \<le> (if i < length xs then xs ! i else 0)
     \<and> (if i < length xs then xs ! i else 0) \<le> 9"
  by (simp add: digits_ok_nth)

lemma add_loop_step:
  "i < max (length xs) (length ys) \<or> carry \<noteq> 0 \<Longrightarrow>
   s = carry + (if i < length xs then xs ! i else 0) + (if i < length ys then ys ! i else 0) \<Longrightarrow>
   add_loop xs ys i carry res =
     add_loop xs ys (i + 1) (s sdiv 10) (res @ [s smod 10])"
  by (subst add_loop.simps) (simp add: Let_def)

lemma add_loop_stop:
  "\<not> (i < max (length xs) (length ys) \<or> carry \<noteq> 0) \<Longrightarrow> add_loop xs ys i carry res = res"
  by (subst add_loop.simps) simp

lemma add_loop_props:
  "digits_ok xs \<Longrightarrow> digits_ok ys \<Longrightarrow> digits_ok res \<Longrightarrow> 0 \<le> c \<Longrightarrow> c \<le> 1 \<Longrightarrow>
   digits_ok (add_loop xs ys i c res) \<and>
   val (add_loop xs ys i c res) =
     val res + 10 ^ length res * (c + val (drop i xs) + val (drop i ys))"
proof (induction xs ys i c res rule: add_loop.induct)
  case (1 xs ys i carry res)
  define x where "x = (if i < length xs then xs ! i else 0)"
  define y where "y = (if i < length ys then ys ! i else 0)"
  define s where "s = carry + (if i < length xs then xs ! i else 0)
    + (if i < length ys then ys ! i else 0)"
  have s_xy: "s = carry + x + y" by (simp add: s_def x_def y_def)
  show ?case
  proof (cases "i < max (length xs) (length ys) \<or> carry \<noteq> 0")
    case True
    have x: "0 \<le> x" "x \<le> 9"
      using digit_if_bounds [OF "1.prems"(1), of i] by (simp_all add: x_def)
    have y: "0 \<le> y" "y \<le> 9"
      using digit_if_bounds [OF "1.prems"(2), of i] by (simp_all add: y_def)
    from x y "1.prems"(4,5) have s: "0 \<le> s" "s \<le> 19"
      unfolding s_xy by linarith+
    then have sd: "s sdiv 10 = s div 10" and sm: "s smod 10 = s mod 10"
      by (simp_all only: sdiv10_nonneg smod10_nonneg)
    from s have c': "0 \<le> s div 10" "s div 10 \<le> 1" by presburger+
    have d: "0 \<le> s mod 10" "s mod 10 \<le> 9" by presburger+
    have ok': "digits_ok (res @ [s smod 10])"
      using "1.prems"(3) d by (simp add: sm)
    have IH: "digits_ok (add_loop xs ys (i + 1) (s sdiv 10) (res @ [s smod 10])) \<and>
       val (add_loop xs ys (i + 1) (s sdiv 10) (res @ [s smod 10])) =
       val (res @ [s smod 10]) + 10 ^ length (res @ [s smod 10]) *
         (s sdiv 10 + val (drop (i + 1) xs) + val (drop (i + 1) ys))"
      using c' by (intro "1.IH" [OF True s_def "1.prems"(1,2) ok']) (simp_all only: sd)
    have e: "(10::int) ^ length res * (s mod 10) + 10 ^ length res * (10 * (s div 10))
        = 10 ^ length res * s"
      by (simp only: distrib_left [symmetric] mod_mult_div_eq)
    have "val (res @ [s smod 10]) + 10 ^ length (res @ [s smod 10]) *
         (s sdiv 10 + val (drop (i + 1) xs) + val (drop (i + 1) ys))
       = val res + 10 ^ length res * (s
           + 10 * val (drop (Suc i) xs) + 10 * val (drop (Suc i) ys))"
      using e by (simp add: val_append sd sm algebra_simps)
    also have "s + 10 * val (drop (Suc i) xs) + 10 * val (drop (Suc i) ys)
        = carry + val (drop i xs) + val (drop i ys)"
      unfolding s_def by (simp add: val_drop_if [of i xs] val_drop_if [of i ys])
    finally show ?thesis
      using IH by (simp only: add_loop_step [OF True s_def])
  next
    case False
    then have "val (drop i xs) = 0" "val (drop i ys) = 0" "carry = 0" by auto
    with False "1.prems" show ?thesis by (simp add: add_loop_stop)
  qed
qed

lemma val_drop_pos:
  assumes "digits_ok xs" "\<not> (1 < length xs \<and> last xs = 0)" "Suc i < length xs"
  shows "0 < val (drop (Suc i) xs)"
proof -
  from assms(3) have ne: "drop (Suc i) xs \<noteq> []" by simp
  from assms(2,3) have "last xs \<noteq> 0" by auto
  with assms(3) have "last (drop (Suc i) xs) \<noteq> 0" by simp
  with ne assms(1) have "10 ^ (length (drop (Suc i) xs) - 1) \<le> val (drop (Suc i) xs)"
    by (intro val_pos_of_last) (auto simp: digits_ok_drop)
  moreover have "(0::int) < 10 ^ (length (drop (Suc i) xs) - 1)" by simp
  ultimately show ?thesis by linarith
qed

lemma add_loop_last:
  "digits_ok xs \<Longrightarrow> digits_ok ys \<Longrightarrow> 0 \<le> c \<Longrightarrow> c \<le> 1 \<Longrightarrow>
   \<not> (1 < length xs \<and> last xs = 0) \<Longrightarrow> \<not> (1 < length ys \<and> last ys = 0) \<Longrightarrow>
   i < max (length xs) (length ys) \<or> c \<noteq> 0 \<Longrightarrow>
   add_loop xs ys i c res \<noteq> [] \<and>
   (last (add_loop xs ys i c res) \<noteq> 0 \<or> c + val (drop i xs) + val (drop i ys) = 0)"
proof (induction xs ys i c res rule: add_loop.induct)
  case (1 xs ys i carry res)
  define x where "x = (if i < length xs then xs ! i else 0)"
  define y where "y = (if i < length ys then ys ! i else 0)"
  define s where "s = carry + (if i < length xs then xs ! i else 0)
    + (if i < length ys then ys ! i else 0)"
  have s_xy: "s = carry + x + y" by (simp add: s_def x_def y_def)
  note run = "1.prems"(7)
  have x: "0 \<le> x" "x \<le> 9"
    using digit_if_bounds [OF "1.prems"(1), of i] by (simp_all add: x_def)
  have y: "0 \<le> y" "y \<le> 9"
    using digit_if_bounds [OF "1.prems"(2), of i] by (simp_all add: y_def)
  from x y "1.prems"(3,4) have s: "0 \<le> s" "s \<le> 19"
    unfolding s_xy by linarith+
  then have sd: "s sdiv 10 = s div 10" and sm: "s smod 10 = s mod 10"
    by (simp_all only: sdiv10_nonneg smod10_nonneg)
  from s have c': "0 \<le> s div 10" "s div 10 \<le> 1" by presburger+
  have vx: "0 \<le> val (drop (Suc i) xs)" and vy: "0 \<le> val (drop (Suc i) ys)"
    using "1.prems"(1,2) by (simp_all add: val_nonneg digits_ok_drop)
  have rest: "carry + val (drop i xs) + val (drop i ys)
      = s + 10 * val (drop (Suc i) xs) + 10 * val (drop (Suc i) ys)"
    unfolding s_def by (simp add: val_drop_if [of i xs] val_drop_if [of i ys])
  have step: "add_loop xs ys i carry res = add_loop xs ys (i + 1) (s sdiv 10) (res @ [s smod 10])"
    by (rule add_loop_step [OF run s_def])
  show ?case
  proof (cases "i + 1 < max (length xs) (length ys) \<or> s sdiv 10 \<noteq> 0")
    case True
    have IH: "add_loop xs ys (i + 1) (s sdiv 10) (res @ [s smod 10]) \<noteq> [] \<and>
      (last (add_loop xs ys (i + 1) (s sdiv 10) (res @ [s smod 10])) \<noteq> 0 \<or>
       s sdiv 10 + val (drop (i + 1) xs) + val (drop (i + 1) ys) = 0)"
    proof (rule "1.IH" [OF run s_def "1.prems"(1,2) _ _ "1.prems"(5,6) True])
      show "0 \<le> s sdiv 10" "s sdiv 10 \<le> 1" using c' by (simp_all only: sd)
    qed
    have "s sdiv 10 + val (drop (i + 1) xs) + val (drop (i + 1) ys) \<noteq> 0"
    proof (cases "s div 10 \<noteq> 0")
      case True
      with c' vx vy show ?thesis by (simp add: sd)
    next
      case False
      with True have "Suc i < length xs \<or> Suc i < length ys" by (auto simp: sd)
      then have "0 < val (drop (Suc i) xs) \<or> 0 < val (drop (Suc i) ys)"
        using val_drop_pos [OF "1.prems"(1,5), of i] val_drop_pos [OF "1.prems"(2,6), of i]
        by blast
      with c' vx vy show ?thesis by (simp add: sd) linarith
    qed
    with IH show ?thesis unfolding step by blast
  next
    case False
    then have stop: "add_loop xs ys (i + 1) (s sdiv 10) (res @ [s smod 10]) = res @ [s smod 10]"
      by (rule add_loop_stop)
    from False have z: "s div 10 = 0" and dx: "drop (Suc i) xs = []" and dy: "drop (Suc i) ys = []"
      by (auto simp: sd)
    from z s have "s mod 10 = s" by presburger
    with stop have r_eq: "add_loop xs ys i carry res = res @ [s]"
      unfolding step sm by simp
    have "carry + val (drop i xs) + val (drop i ys) = s"
      by (simp add: rest dx dy)
    then show ?thesis by (simp add: r_eq)
  qed
qed

lemma sub_loop_step_neg:
  "i < length xs \<Longrightarrow> diff = xs ! i - borrow - (if i < length ys then ys ! i else 0) \<Longrightarrow>
   diff < 0 \<Longrightarrow> sub_loop xs ys i borrow res = sub_loop xs ys (i + 1) 1 (res @ [diff + 10])"
  by (subst sub_loop.simps) (simp add: Let_def)

lemma sub_loop_step_pos:
  "i < length xs \<Longrightarrow> diff = xs ! i - borrow - (if i < length ys then ys ! i else 0) \<Longrightarrow>
   \<not> diff < 0 \<Longrightarrow> sub_loop xs ys i borrow res = sub_loop xs ys (i + 1) 0 (res @ [diff])"
  by (subst sub_loop.simps) (simp add: Let_def)

lemma sub_loop_stop: "\<not> i < length xs \<Longrightarrow> sub_loop xs ys i borrow res = res"
  by (subst sub_loop.simps) simp

lemma sub_loop_props:
  "digits_ok xs \<Longrightarrow> digits_ok ys \<Longrightarrow> digits_ok res \<Longrightarrow> 0 \<le> b \<Longrightarrow> b \<le> 1 \<Longrightarrow>
   0 \<le> val (drop i xs) - b - val (drop i ys) \<Longrightarrow>
   digits_ok (sub_loop xs ys i b res) \<and>
   val (sub_loop xs ys i b res) =
     val res + 10 ^ length res * (val (drop i xs) - b - val (drop i ys)) \<and>
   length (sub_loop xs ys i b res) = length res + (length xs - i)"
proof (induction xs ys i b res rule: sub_loop.induct)
  case (1 xs ys i borrow res)
  show ?case
  proof (cases "i < length xs")
    case True
    define y where "y = (if i < length ys then ys ! i else 0)"
    define diff where "diff = xs ! i - borrow - (if i < length ys then ys ! i else 0)"
    define rx where "rx = val (drop (Suc i) xs)"
    define ry where "ry = val (drop (Suc i) ys)"
    have diff_y: "diff = xs ! i - borrow - y" by (simp add: diff_def y_def)
    have x: "0 \<le> xs ! i" "xs ! i \<le> 9"
      using digits_ok_nth [OF "1.prems"(1) True] by simp_all
    have y: "0 \<le> y" "y \<le> 9"
      using digit_if_bounds [OF "1.prems"(2), of i] by (simp_all add: y_def)
    have D: "val (drop i xs) - borrow - val (drop i ys) = diff + 10 * (rx - ry)"
      unfolding diff_def rx_def ry_def
      using True by (simp add: val_drop_Suc val_drop_if [of i ys])
    with "1.prems"(6) have D0: "0 \<le> diff + 10 * (rx - ry)" by simp
    from x y "1.prems"(4,5) have range: "- 10 \<le> diff" "diff \<le> 9"
      unfolding diff_y by linarith+
    show ?thesis
    proof (cases "diff < 0")
      case neg: True
      from D0 neg range have r: "0 \<le> rx - 1 - ry" by presburger
      have ok': "digits_ok (res @ [diff + 10])"
        using "1.prems"(3) neg range by simp
      have IH: "digits_ok (sub_loop xs ys (i + 1) 1 (res @ [diff + 10])) \<and>
        val (sub_loop xs ys (i + 1) 1 (res @ [diff + 10])) =
          val (res @ [diff + 10]) + 10 ^ length (res @ [diff + 10])
            * (val (drop (i + 1) xs) - 1 - val (drop (i + 1) ys)) \<and>
        length (sub_loop xs ys (i + 1) 1 (res @ [diff + 10]))
          = length (res @ [diff + 10]) + (length xs - (i + 1))"
        using r by (intro "1.IH"(1) [OF True diff_def neg "1.prems"(1,2) ok'])
          (simp_all add: rx_def ry_def)
      have "val (res @ [diff + 10]) + 10 ^ length (res @ [diff + 10])
            * (val (drop (i + 1) xs) - 1 - val (drop (i + 1) ys))
          = val res + 10 ^ length res * (diff + 10 * (rx - ry))"
        by (simp add: val_append rx_def ry_def algebra_simps)
      with IH True show ?thesis
        unfolding sub_loop_step_neg [OF True diff_def neg] D by simp
    next
      case pos: False
      from D0 pos range have r: "0 \<le> rx - 0 - ry" by presburger
      have ok': "digits_ok (res @ [diff])"
        using "1.prems"(3) pos range by simp
      have IH: "digits_ok (sub_loop xs ys (i + 1) 0 (res @ [diff])) \<and>
        val (sub_loop xs ys (i + 1) 0 (res @ [diff])) =
          val (res @ [diff]) + 10 ^ length (res @ [diff])
            * (val (drop (i + 1) xs) - 0 - val (drop (i + 1) ys)) \<and>
        length (sub_loop xs ys (i + 1) 0 (res @ [diff]))
          = length (res @ [diff]) + (length xs - (i + 1))"
        using r by (intro "1.IH"(2) [OF True diff_def pos "1.prems"(1,2) ok'])
          (simp_all add: rx_def ry_def)
      have "val (res @ [diff]) + 10 ^ length (res @ [diff])
            * (val (drop (i + 1) xs) - 0 - val (drop (i + 1) ys))
          = val res + 10 ^ length res * (diff + 10 * (rx - ry))"
        by (simp add: val_append rx_def ry_def algebra_simps)
      with IH True show ?thesis
        unfolding sub_loop_step_pos [OF True diff_def pos] D by simp
    qed
  next
    case False
    have "0 \<le> val (drop i ys)"
      using "1.prems"(2) by (simp add: val_nonneg digits_ok_drop)
    with False "1.prems"(4,6) have "val (drop i xs) - borrow - val (drop i ys) = 0"
      by simp
    with False "1.prems"(3) show ?thesis by (simp add: sub_loop_stop)
  qed
qed

section \<open>Addition and subtraction on canonical values\<close>

lemma value_of_op_neg: "value_of (op_neg a) = - value_of a"
  by (simp add: value_of_def op_neg_def)

lemma negative_op_neg [simp]: "negative (op_neg a) = (\<not> negative a)"
  by (simp add: op_neg_def)

lemma digits_op_neg [simp]: "digits (op_neg a) = digits a"
  by (simp add: op_neg_def)

lemma canonical_op_neg:
  assumes "canonical a" "value_of a \<noteq> 0"
  shows "canonical (op_neg a)"
proof -
  have "digits a \<noteq> [0]"
  proof
    assume "digits a = [0]"
    then have "value_of a = 0" by (simp add: value_of_def)
    with assms(2) show False by simp
  qed
  with assms(1) show ?thesis by (simp add: canonical_def)
qed

lemma canonical_abs_big:
  assumes "canonical a"
  shows "canonical (abs_big a) \<and> value_of (abs_big a) = \<bar>value_of a\<bar> \<and> \<not> negative (abs_big a)"
proof (cases "negative a")
  case True
  with assms have neg: "value_of a < 0" by (simp add: canonical_negative)
  with assms have "\<not> isZero a" by (simp add: canonical_isZero)
  with True have "abs_big a = op_neg a" by (simp add: abs_big_def isNegative_def)
  with assms neg True show ?thesis
    by (simp add: canonical_op_neg value_of_op_neg)
next
  case False
  with assms have "0 \<le> value_of a" using canonical_negative [of a] by simp
  with False assms show ?thesis by (simp add: abs_big_def isNegative_def)
qed

lemma canonical_val_pos: "canonical a \<Longrightarrow> negative a \<Longrightarrow> 0 < val (digits a)"
  using canonical_negative [of a] by (simp add: value_of_def)

lemma op_add_same_sign:
  assumes a: "canonical a" and b: "canonical b" and same: "negative a = negative b"
  shows "canonical (op_add a b) \<and> value_of (op_add a b) = value_of a + value_of b"
proof -
  define r where "r = add_loop (digits a) (digits b) 0 0 []"
  have eq: "op_add a b = \<lparr>digits = r, negative = negative a\<rparr>"
    using same by (subst op_add.simps) (simp add: r_def)
  from a b have ok: "digits_ok (digits a)" "digits_ok (digits b)"
    and top: "\<not> (1 < length (digits a) \<and> last (digits a) = 0)"
      "\<not> (1 < length (digits b) \<and> last (digits b) = 0)"
    and ne: "digits a \<noteq> []"
    by (simp_all add: canonical_def)
  from add_loop_props [OF ok, of "[]" 0 0]
  have r_ok: "digits_ok r" and r_val: "val r = val (digits a) + val (digits b)"
    by (simp_all add: r_def)
  from ne have "0 < length (digits a)" by simp
  then have run: "0 < max (length (digits a)) (length (digits b)) \<or> (0::int) \<noteq> 0"
    by (simp add: less_max_iff_disj)
  from add_loop_last [OF ok _ _ top run, of "[]"]
  have r_ne: "r \<noteq> []" and r_last: "last r \<noteq> 0 \<or> val (digits a) + val (digits b) = 0"
    by (simp_all add: r_def)
  have va: "0 \<le> val (digits a)" and vb: "0 \<le> val (digits b)"
    using ok by (simp_all add: val_nonneg)
  have r_top: "\<not> (1 < length r \<and> last r = 0)"
  proof
    assume *: "1 < length r \<and> last r = 0"
    with r_last va vb have "val (digits a) = 0" "val (digits b) = 0" by linarith+
    with a b have "digits a = [0]" "digits b = [0]" by (simp_all add: canonical_val_zero)
    then have "r = [0]"
      by (simp add: r_def add_loop.simps [of "[0]" "[0]"])
    with * show False by simp
  qed
  have r_sign: "\<not> (r = [0] \<and> negative a)"
  proof
    assume *: "r = [0] \<and> negative a"
    with a have "0 < val (digits a)" by (simp add: canonical_val_pos)
    with vb r_val * show False by simp
  qed
  have "canonical (op_add a b)"
    using r_ne r_ok r_top r_sign by (simp add: canonical_def eq)
  moreover have "value_of (op_add a b) = value_of a + value_of b"
    using same by (simp add: eq value_of_def r_val)
  ultimately show ?thesis ..
qed

lemma op_sub_nonneg_ge:
  assumes a: "canonical a" and b: "canonical b"
    and sa: "\<not> negative a" and sb: "\<not> negative b" and le: "value_of b \<le> value_of a"
  shows "canonical (op_sub a b) \<and> value_of (op_sub a b) = value_of a - value_of b"
proof -
  define r where "r = sub_loop (digits a) (digits b) 0 0 []"
  from le a b have "\<not> op_lt a b" by (simp add: op_lt_iff)
  then have eq: "op_sub a b = normalize \<lparr>digits = r, negative = False\<rparr>"
    using sa sb by (subst op_sub.simps) (simp add: r_def)
  from a b have ok: "digits_ok (digits a)" "digits_ok (digits b)" and ne: "digits a \<noteq> []"
    by (simp_all add: canonical_def)
  from le sa sb have "0 \<le> val (drop 0 (digits a)) - 0 - val (drop 0 (digits b))"
    by (simp add: value_of_def)
  from sub_loop_props [OF ok _ _ _ this, of "[]"]
  have r_ok: "digits_ok r" and r_val: "val r = val (digits a) - val (digits b)"
    and r_len: "length r = length (digits a)"
    by (simp_all add: r_def)
  from r_len ne have "r \<noteq> []" by auto
  with r_ok have "canonical (op_sub a b)"
    unfolding eq by (intro canonical_normalize) simp_all
  moreover have "value_of (op_sub a b) = value_of a - value_of b"
    using sa sb by (simp add: eq value_of_normalize) (simp add: value_of_def r_val)
  ultimately show ?thesis ..
qed

lemma op_sub_nonneg:
  assumes a: "canonical a" and b: "canonical b"
    and sa: "\<not> negative a" and sb: "\<not> negative b"
  shows "canonical (op_sub a b) \<and> value_of (op_sub a b) = value_of a - value_of b"
proof (cases "op_lt a b")
  case True
  with a b have lt: "value_of a < value_of b" by (simp add: op_lt_iff)
  from True sa sb have eq: "op_sub a b = op_neg (op_sub b a)"
    by (subst op_sub.simps) simp
  from lt op_sub_nonneg_ge [OF b a sb sa]
  have "canonical (op_sub b a)" "value_of (op_sub b a) = value_of b - value_of a"
    by simp_all
  with lt show ?thesis
    by (simp add: eq canonical_op_neg value_of_op_neg)
next
  case False
  with a b have "value_of b \<le> value_of a" by (simp add: op_lt_iff)
  then show ?thesis by (rule op_sub_nonneg_ge [OF a b sa sb])
qed

lemma op_sub_correct:
  assumes a: "canonical a" and b: "canonical b"
  shows "canonical (op_sub a b) \<and> value_of (op_sub a b) = value_of a - value_of b"
proof -
  have na: "negative a \<Longrightarrow> canonical (op_neg a) \<and> 0 < value_of (op_neg a)"
    using a canonical_negative [OF a] by (simp add: canonical_op_neg value_of_op_neg)
  have nb: "negative b \<Longrightarrow> canonical (op_neg b) \<and> 0 < value_of (op_neg b)"
    using b canonical_negative [OF b] by (simp add: canonical_op_neg value_of_op_neg)
  have pb: "\<not> negative b \<Longrightarrow> 0 \<le> value_of b"
    using canonical_negative [OF b] by simp
  consider (neg_pos) "negative a" "\<not> negative b" | (pos_neg) "\<not> negative a" "negative b"
    | (neg_neg) "negative a" "negative b" | (pos_pos) "\<not> negative a" "\<not> negative b"
    by blast
  then show ?thesis
  proof cases
    case neg_pos
    then have eq: "op_sub a b = op_neg (op_add (op_neg a) b)"
      by (subst op_sub.simps) simp
    from neg_pos na have "canonical (op_neg a)" "0 < value_of (op_neg a)" by simp_all
    moreover from this(1) b neg_pos
    have "canonical (op_add (op_neg a) b) \<and>
      value_of (op_add (op_neg a) b) = value_of (op_neg a) + value_of b"
      by (intro op_add_same_sign) simp_all
    ultimately show ?thesis
      using pb [OF neg_pos(2)]
      by (simp add: eq canonical_op_neg value_of_op_neg)
  next
    case pos_neg
    then have eq: "op_sub a b = op_add a (op_neg b)"
      by (subst op_sub.simps) simp
    from pos_neg nb have "canonical (op_neg b)" by simp
    with a pos_neg
    have "canonical (op_add a (op_neg b)) \<and>
      value_of (op_add a (op_neg b)) = value_of a + value_of (op_neg b)"
      by (intro op_add_same_sign) simp_all
    then show ?thesis by (simp add: eq value_of_op_neg)
  next
    case neg_neg
    then have eq: "op_sub a b = op_sub (op_neg b) (op_neg a)"
      by (subst op_sub.simps) simp
    from neg_neg na nb have "canonical (op_neg a)" "canonical (op_neg b)" by simp_all
    with neg_neg
    have "canonical (op_sub (op_neg b) (op_neg a)) \<and>
      value_of (op_sub (op_neg b) (op_neg a)) = value_of (op_neg b) - value_of (op_neg a)"
      by (intro op_sub_nonneg) simp_all
    then show ?thesis by (simp add: eq value_of_op_neg)
  next
    case pos_pos
    then show ?thesis by (intro op_sub_nonneg a b)
  qed
qed

lemma op_add_correct:
  assumes a: "canonical a" and b: "canonical b"
  shows "canonical (op_add a b) \<and> value_of (op_add a b) = value_of a + value_of b"
proof (cases "negative a = negative b")
  case True
  then show ?thesis by (rule op_add_same_sign [OF a b])
next
  case False
  show ?thesis
  proof (cases "negative a")
    case True
    with False have eq: "op_add a b = op_sub b (op_neg a)"
      by (subst op_add.simps) simp
    from True a canonical_negative [OF a] have "canonical (op_neg a)"
      by (simp add: canonical_op_neg)
    from op_sub_correct [OF b this] show ?thesis
      by (simp add: eq value_of_op_neg)
  next
    case na: False
    with False have eq: "op_add a b = op_sub a (op_neg b)"
      by (subst op_add.simps) simp
    from na False b canonical_negative [OF b] have "canonical (op_neg b)"
      by (simp add: canonical_op_neg)
    from op_sub_correct [OF a this] show ?thesis
      by (simp add: eq value_of_op_neg)
  qed
qed

section \<open>Multiplication on canonical values\<close>

lemma mul_inner_step:
  "j < length ys \<or> carry \<noteq> 0 \<Longrightarrow> i + j < length res \<Longrightarrow>
   product = res ! (i + j) + carry + (if j < length ys then d * ys ! j else 0) \<Longrightarrow>
   mul_inner d ys i j carry res =
     mul_inner d ys i (j + 1) (product sdiv 10) (res[i + j := product smod 10])"
  by (subst mul_inner.simps) (simp add: Let_def)

lemma mul_inner_stop:
  "\<not> (j < length ys \<or> carry \<noteq> 0) \<Longrightarrow> mul_inner d ys i j carry res = Inr res"
  by (subst mul_inner.simps) simp

lemma mul_inner_props:
  "digits_ok ys \<Longrightarrow> 0 \<le> d \<Longrightarrow> d \<le> 9 \<Longrightarrow> digits_ok res \<Longrightarrow> 0 \<le> carry \<Longrightarrow>
   i + length ys \<le> length res \<Longrightarrow>
   val res + 10 ^ (i + j) * (carry + d * val (drop j ys)) < 10 ^ length res \<Longrightarrow>
   \<exists>res'. mul_inner d ys i j carry res = Inr res' \<and> digits_ok res' \<and>
     length res' = length res \<and>
     val res' = val res + 10 ^ (i + j) * (carry + d * val (drop j ys))"
proof (induction d ys i j carry res rule: mul_inner.induct)
  case (1 d ys i j carry res)
  show ?case
  proof (cases "j < length ys \<or> carry \<noteq> 0")
    case run: True
    define t where "t = (if j < length ys then d * ys ! j else 0)"
    define p where "p = res ! (i + j) + carry + (if j < length ys then d * ys ! j else 0)"
    define v' where "v' = val (drop (Suc j) ys)"
    have p_t: "p = res ! (i + j) + carry + t" by (simp add: p_def t_def)
    have vres: "0 \<le> val res" using "1.prems"(4) by (rule val_nonneg)
    have vdrop: "0 \<le> val (drop j ys)"
      using "1.prems"(1) by (simp add: val_nonneg digits_ok_drop)
    have dv: "0 \<le> d * val (drop j ys)" using "1.prems"(2) vdrop by simp
    have inb: "i + j < length res"
    proof (cases "j < length ys")
      case True
      with "1.prems"(6) show ?thesis by simp
    next
      case False
      with run "1.prems"(5) have "1 \<le> carry" by simp
      with dv have "1 \<le> carry + d * val (drop j ys)" by simp
      then have "(10::int) ^ (i + j) \<le> 10 ^ (i + j) * (carry + d * val (drop j ys))"
        using mult_left_mono [of 1 "carry + d * val (drop j ys)" "10 ^ (i + j)"] by simp
      with vres "1.prems"(7) have "(10::int) ^ (i + j) < 10 ^ length res" by linarith
      then show ?thesis by simp
    qed
    have t: "0 \<le> t"
      using "1.prems"(1,2) digits_ok_nth [of ys j] by (simp add: t_def)
    have r: "0 \<le> res ! (i + j)" "res ! (i + j) \<le> 9"
      using digits_ok_nth [OF "1.prems"(4) inb] by simp_all
    from r t "1.prems"(5) have p: "0 \<le> p" unfolding p_t by linarith
    then have sd: "p sdiv 10 = p div 10" and sm: "p smod 10 = p mod 10"
      by (simp_all only: sdiv10_nonneg smod10_nonneg)
    have c': "0 \<le> p div 10" using p by presburger
    have m: "0 \<le> p mod 10" "p mod 10 \<le> 9" by presburger+
    have ok': "digits_ok (res[i + j := p smod 10])"
      using "1.prems"(4) m by (simp add: sm digits_ok_update)
    have dval: "d * val (drop j ys) = t + 10 * (d * v')"
      unfolding t_def v'_def by (simp add: val_drop_if [of j ys] algebra_simps)
    have e: "(10::int) ^ (i + j) * (p mod 10) + 10 ^ (i + j) * (10 * (p div 10))
        = 10 ^ (i + j) * p"
      by (simp only: distrib_left [symmetric] mod_mult_div_eq)
    have "val (res[i + j := p smod 10]) + 10 ^ (i + (j + 1)) * (p sdiv 10 + d * val (drop (j + 1) ys))
        = val res + 10 ^ (i + j) * (p - res ! (i + j) + 10 * (d * v'))"
      using inb e by (simp add: val_update sd sm v'_def algebra_simps)
    also have "\<dots> = val res + 10 ^ (i + j) * (carry + d * val (drop j ys))"
      unfolding dval p_t by simp
    finally have V: "val (res[i + j := p smod 10])
          + 10 ^ (i + (j + 1)) * (p sdiv 10 + d * val (drop (j + 1) ys))
        = val res + 10 ^ (i + j) * (carry + d * val (drop j ys))" .
    have "\<exists>res'. mul_inner d ys i (j + 1) (p sdiv 10) (res[i + j := p smod 10]) = Inr res' \<and>
        digits_ok res' \<and> length res' = length (res[i + j := p smod 10]) \<and>
        val res' = val (res[i + j := p smod 10])
          + 10 ^ (i + (j + 1)) * (p sdiv 10 + d * val (drop (j + 1) ys))"
    proof (rule "1.IH" [OF run _ p_def "1.prems"(1,2,3) ok'])
      show "\<not> length res \<le> i + j" using inb by simp
      show "0 \<le> p sdiv 10" using c' by (simp only: sd)
      show "i + length ys \<le> length (res[i + j := p smod 10])"
        using "1.prems"(6) by simp
      show "val (res[i + j := p smod 10])
          + 10 ^ (i + (j + 1)) * (p sdiv 10 + d * val (drop (j + 1) ys))
          < 10 ^ length (res[i + j := p smod 10])"
        unfolding V using "1.prems"(7) by simp
    qed
    then show ?thesis
      unfolding V mul_inner_step [OF run inb p_def] by simp
  next
    case False
    then have "carry = 0" "drop j ys = []" by auto
    with False "1.prems"(4) show ?thesis by (simp add: mul_inner_stop)
  qed
qed

lemma mul_outer_step:
  "i < length xs \<Longrightarrow> mul_inner (xs ! i) ys i 0 0 res = Inr res' \<Longrightarrow>
   mul_outer xs ys i res = mul_outer xs ys (i + 1) res'"
  by (subst mul_outer.simps) simp

lemma mul_outer_stop: "\<not> i < length xs \<Longrightarrow> mul_outer xs ys i res = Inr res"
  by (subst mul_outer.simps) simp

lemma mult_less_powers:
  fixes a b :: int
  assumes "0 \<le> a" "a < 10 ^ n" "0 \<le> b" "b < 10 ^ m"
  shows "a * b < 10 ^ (n + m)"
proof -
  have "a * b < 10 ^ n * 10 ^ m"
    using assms by (intro mult_strict_mono') simp_all
  then show ?thesis by (simp add: power_add)
qed

lemma mul_outer_props:
  "digits_ok xs \<Longrightarrow> digits_ok ys \<Longrightarrow> digits_ok res \<Longrightarrow>
   length res = length xs + length ys \<Longrightarrow> i \<le> length xs \<Longrightarrow>
   val res = val (take i xs) * val ys \<Longrightarrow>
   \<exists>res'. mul_outer xs ys i res = Inr res' \<and> digits_ok res' \<and>
     length res' = length xs + length ys \<and> val res' = val xs * val ys"
proof (induction xs ys i res rule: mul_outer.induct)
  case (1 xs ys i res)
  show ?case
  proof (cases "i < length xs")
    case True
    have d: "0 \<le> xs ! i" "xs ! i \<le> 9"
      using digits_ok_nth [OF "1.prems"(1) True] by simp_all
    have V: "val res + 10 ^ (i + 0) * (0 + xs ! i * val (drop 0 ys))
        = val (take (Suc i) xs) * val ys"
      using True by (simp add: "1.prems"(6) val_take_Suc algebra_simps)
    have tk: "0 \<le> val (take (Suc i) xs)" "val (take (Suc i) xs) < 10 ^ Suc i"
      using "1.prems"(1) True val_upper [of "take (Suc i) xs"]
      by (simp_all add: val_nonneg digits_ok_take min_absorb2)
    have "(10::int) ^ Suc i \<le> 10 ^ length xs"
      using True by (intro power_increasing) simp_all
    with tk have tk': "val (take (Suc i) xs) < 10 ^ length xs" by linarith
    have "val (take (Suc i) xs) * val ys < 10 ^ (length xs + length ys)"
      using tk(1) tk' "1.prems"(2) by (intro mult_less_powers) (simp_all add: val_nonneg val_upper)
    then have bound: "val res + 10 ^ (i + 0) * (0 + xs ! i * val (drop 0 ys)) < 10 ^ length res"
      unfolding V by (simp add: "1.prems"(4))
    from True "1.prems"(4) have len: "i + length ys \<le> length res" by simp
    from mul_inner_props [OF "1.prems"(2) d "1.prems"(3) order_refl len bound]
    obtain res' where inner: "mul_inner (xs ! i) ys i 0 0 res = Inr res'"
      and ok': "digits_ok res'" and len': "length res' = length res"
      and val': "val res' = val (take (Suc i) xs) * val ys"
      unfolding V by blast
    have "\<exists>r. mul_outer xs ys (i + 1) res' = Inr r \<and> digits_ok r \<and>
        length r = length xs + length ys \<and> val r = val xs * val ys"
      using True val' len' "1.prems"(4)
      by (intro "1.IH" [OF True inner "1.prems"(1,2) ok']) simp_all
    then show ?thesis by (simp only: mul_outer_step [OF True inner])
  next
    case False
    with "1.prems"(5) have "take i xs = xs" by simp
    with False "1.prems" show ?thesis by (simp add: mul_outer_stop)
  qed
qed

lemma canonical_ZERO: "canonical ZERO" and value_of_ZERO: "value_of ZERO = 0"
  by (simp_all add: ZERO_eq canonical_def value_of_def)

lemma canonical_ONE: "canonical ONE" and value_of_ONE: "value_of ONE = 1"
  by (simp_all add: ONE_eq canonical_def value_of_def)

lemma canonical_TWO: "canonical TWO" and value_of_TWO: "value_of TWO = 2"
  by (simp_all add: TWO_eq canonical_def value_of_def)

lemma schoolbookMultiply_correct:
  assumes "canonical a" "canonical b"
  shows "\<exists>r. schoolbookMultiply a b = Inr r \<and> canonical r \<and> \<not> negative r \<and>
    val (digits r) = val (digits a) * val (digits b)"
proof -
  from assms have ok: "digits_ok (digits a)" "digits_ok (digits b)" and ne: "digits a \<noteq> []"
    by (simp_all add: canonical_def)
  let ?res = "replicate (length (digits a) + length (digits b)) (0::int)"
  from mul_outer_props [OF ok, of ?res 0]
  obtain ds where outer: "mul_outer (digits a) (digits b) 0 ?res = Inr ds"
    and ds_ok: "digits_ok ds" and len: "length ds = length (digits a) + length (digits b)"
    and v: "val ds = val (digits a) * val (digits b)"
    by auto
  let ?r = "normalize \<lparr>digits = ds, negative = False\<rparr>"
  from len ne have "ds \<noteq> []" by auto
  with ds_ok have "canonical ?r" by (intro canonical_normalize) simp_all
  moreover have "\<not> negative ?r" by (simp add: negative_normalize)
  moreover have "val (digits ?r) = val (digits a) * val (digits b)"
    by (simp add: digits_normalize removeLeadingZeros_val v)
  moreover have "schoolbookMultiply a b = Inr ?r"
    by (simp add: schoolbookMultiply_def outer)
  ultimately show ?thesis by blast
qed

lemma op_mul_correct:
  assumes a: "canonical a" and b: "canonical b"
  shows "\<exists>r. op_mul a b = Inr r \<and> canonical r \<and> value_of r = value_of a * value_of b"
proof (cases "isZero a \<or> isZero b")
  case True
  then have "op_mul a b = Inr ZERO" by (simp add: op_mul_def)
  moreover from True a b have "value_of a * value_of b = 0"
    by (auto simp: canonical_isZero)
  ultimately show ?thesis by (simp add: canonical_ZERO value_of_ZERO)
next
  case False
  from schoolbookMultiply_correct [OF a b]
  obtain r0 where sm: "schoolbookMultiply a b = Inr r0" and c0: "canonical r0"
    and v0: "val (digits r0) = val (digits a) * val (digits b)"
    by blast
  let ?r = "normalize (r0\<lparr>negative := (negative a \<noteq> negative b)\<rparr>)"
  have eq: "op_mul a b = Inr ?r"
    using False by (simp add: op_mul_def sm)
  from c0 have "canonical ?r"
    by (intro canonical_normalize) (simp_all add: canonical_def)
  moreover have "value_of ?r = value_of a * value_of b"
    by (simp add: value_of_normalize) (simp add: value_of_def v0)
  ultimately show ?thesis using eq by blast
qed

section \<open>Division with remainder on canonical values\<close>

lemma sub_while_correct:
  assumes d: "canonical d" "\<not> negative d" "0 < value_of d"
  shows "canonical r \<Longrightarrow> \<not> negative r \<Longrightarrow>
     \<exists>r'. sub_while r d k = Some (r', k + value_of r div value_of d) \<and> canonical r' \<and>
       \<not> negative r' \<and> value_of r' = value_of r mod value_of d"
proof (induction "nat (value_of r)" arbitrary: r k rule: less_induct)
  case less
  from less.prems have r0: "0 \<le> value_of r"
    using canonical_negative [of r] by simp
  show ?case
  proof (cases "op_ge r d")
    case True
    with less.prems d have ge: "value_of d \<le> value_of r" by (simp add: op_ge_iff)
    let ?r1 = "op_sub r d"
    from op_sub_correct [OF less.prems(1) d(1)]
    have c1: "canonical ?r1" and v1: "value_of ?r1 = value_of r - value_of d" by simp_all
    from ge v1 c1 have n1: "\<not> negative ?r1" by (simp add: canonical_negative)
    from d(3) v1 ge have "nat (value_of ?r1) < nat (value_of r)" by simp
    from less.hyps [OF this c1 n1, of "k + 1"]
    obtain r' where *: "sub_while ?r1 d (k + 1) = Some (r', k + 1 + value_of ?r1 div value_of d)"
      and r': "canonical r'" "\<not> negative r'" "value_of r' = value_of ?r1 mod value_of d"
      by blast
    have "(value_of r - value_of d) div value_of d = value_of r div value_of d - 1"
      using d(3) div_add_self2 [of "value_of d" "value_of r - value_of d"] by simp
    moreover have "(value_of r - value_of d) mod value_of d = value_of r mod value_of d"
      by simp
    ultimately show ?thesis
      using True * r' by (subst sub_while.simps) (simp add: v1)
  next
    case False
    with less.prems d have lt: "value_of r < value_of d" by (simp add: op_ge_iff)
    with r0 have "value_of r div value_of d = 0" "value_of r mod value_of d = value_of r"
      by simp_all
    with False less.prems show ?thesis
      by (subst sub_while.simps) simp
  qed
qed

lemma div_loop_correct:
  assumes d: "canonical d" "\<not> negative d" "0 < value_of d" and cur: "digits_ok cur"
  shows "k \<le> length cur \<Longrightarrow> digits_ok (digits q) \<Longrightarrow> canonical r \<Longrightarrow> \<not> negative r \<Longrightarrow>
     value_of r < value_of d \<Longrightarrow>
     val (drop k cur) = val (digits q) * value_of d + value_of r \<Longrightarrow>
     \<exists>q' r'. div_loop cur d k q r = Some (q', r') \<and> digits_ok (digits q') \<and>
       (digits q \<noteq> [] \<longrightarrow> digits q' \<noteq> []) \<and> canonical r' \<and> \<not> negative r' \<and>
       value_of r' < value_of d \<and> val cur = val (digits q') * value_of d + value_of r'"
proof (induction k arbitrary: q r)
  case 0
  then show ?case by simp
next
  case (Suc k)
  define c where "c = cur ! k"
  define D where "D = value_of d"
  from Suc.prems(1) have k: "k < length cur" by simp
  have c: "0 \<le> c" "c \<le> 9" using digits_ok_nth [OF cur k] by (simp_all add: c_def)
  let ?r0 = "r\<lparr>digits := c # digits r\<rparr>"
  let ?r1 = "normalize ?r0"
  from Suc.prems(3) c have c1: "canonical ?r1"
    by (intro canonical_normalize) (simp_all add: canonical_def)
  from Suc.prems(4) have n1: "\<not> negative ?r1" by (simp add: negative_normalize)
  have v1: "value_of ?r1 = c + 10 * value_of r"
    using Suc.prems(4) by (simp add: value_of_normalize) (simp add: value_of_def)
  from Suc.prems(3,4) have vr: "0 \<le> value_of r"
    using canonical_negative [of r] by simp
  from sub_while_correct [OF d c1 n1, of 0]
  obtain r2 where sw: "sub_while ?r1 d 0 = Some (r2, value_of ?r1 div D)"
    and c2: "canonical r2" and n2: "\<not> negative r2"
    and v2: "value_of r2 = value_of ?r1 mod D"
    by (auto simp: D_def)
  define digit where "digit = value_of ?r1 div D"
  have Dpos: "0 < D" using d(3) by (simp add: D_def)
  from Suc.prems(5) have "value_of r \<le> D - 1" by (simp add: D_def)
  with c have "value_of ?r1 < 10 * D" unfolding v1 by linarith
  have split: "value_of ?r1 = D * digit + value_of ?r1 mod D"
    by (simp add: digit_def)
  have rem: "0 \<le> value_of ?r1 mod D" "value_of ?r1 mod D < D"
    using Dpos by simp_all
  have "digit < 10"
  proof (rule ccontr)
    assume "\<not> digit < 10"
    then have "D * 10 \<le> D * digit" using Dpos by (intro mult_left_mono) simp_all
    with split rem(1) \<open>value_of ?r1 < 10 * D\<close> show False by linarith
  qed
  moreover have "0 \<le> digit"
  proof (rule ccontr)
    assume "\<not> 0 \<le> digit"
    then have "digit \<le> - 1" by simp
    then have "D * digit \<le> D * (- 1)" using Dpos by (intro mult_left_mono) simp_all
    moreover have "0 \<le> value_of ?r1" using vr c unfolding v1 by simp
    ultimately show False using split rem(2) by linarith
  qed
  ultimately have dg: "0 \<le> digit" "digit \<le> 9" by simp_all
  let ?q1 = "q\<lparr>digits := digit # digits q\<rparr>"
  have q1_ok: "digits_ok (digits ?q1)" using Suc.prems(2) dg by simp
  have lt2: "value_of r2 < value_of d" using Dpos by (simp add: v2 D_def [symmetric])
  have "val (drop k cur) = c + 10 * val (drop (Suc k) cur)"
    using k by (simp add: val_drop_Suc c_def)
  also have "\<dots> = value_of ?r1 + 10 * (val (digits q) * D)"
    by (simp add: Suc.prems(6) v1 D_def algebra_simps)
  also have "value_of ?r1 = digit * D + value_of r2"
    by (simp add: digit_def v2)
  finally have inv: "val (drop k cur) = val (digits ?q1) * value_of d + value_of r2"
    by (simp add: D_def algebra_simps)
  from k have "k \<le> length cur" by simp
  from Suc.IH [OF this q1_ok c2 n2 lt2 inv]
  obtain q' r' where "div_loop cur d k ?q1 r2 = Some (q', r')" "digits_ok (digits q')"
    "digits q' \<noteq> []" "canonical r'" "\<not> negative r'" "value_of r' < value_of d"
    "val cur = val (digits q') * value_of d + value_of r'"
    by auto
  then show ?case
    by (simp add: sw c_def [symmetric] digit_def [symmetric])
qed

lemma int_divmod_unique:
  fixes a q r D :: int
  assumes "a = q * D + r" "0 \<le> r" "r < D"
  shows "a div D = q" "a mod D = r"
  using assms by (simp_all add: div_pos_pos_trivial)

lemma divideWithRemainder_correct:
  assumes a: "canonical a" and b: "canonical b" and nz: "value_of b \<noteq> 0"
  shows "\<exists>q r. divideWithRemainder a b = Some (q, r) \<and>
     digits q \<noteq> [] \<and> digits_ok (digits q) \<and> digits r \<noteq> [] \<and> digits_ok (digits r) \<and>
     val (digits q) = \<bar>value_of a\<bar> div \<bar>value_of b\<bar> \<and>
     val (digits r) = \<bar>value_of a\<bar> mod \<bar>value_of b\<bar>"
proof (cases "isZero a")
  case True
  with a have "value_of a = 0" by (simp add: canonical_isZero)
  with True show ?thesis
    by (simp add: divideWithRemainder_def ZERO_eq)
next
  case False
  let ?cur = "abs_big a" and ?d = "abs_big b"
  let ?z = "\<lparr>digits = [0], negative = False\<rparr>"
  from canonical_abs_big [OF a]
  have ca: "canonical ?cur" and va: "value_of ?cur = \<bar>value_of a\<bar>" and na: "\<not> negative ?cur"
    by simp_all
  from canonical_abs_big [OF b] nz
  have d: "canonical ?d" "\<not> negative ?d" "0 < value_of ?d" and vd: "value_of ?d = \<bar>value_of b\<bar>"
    by simp_all
  from ca have cur: "digits_ok (digits ?cur)" by (simp add: canonical_def)
  have z: "canonical ?z" "value_of ?z = 0" by (simp_all add: canonical_def value_of_def)
  have "\<exists>q' r'. div_loop (digits ?cur) ?d (length (digits ?cur)) ?z ?z = Some (q', r') \<and>
       digits_ok (digits q') \<and>
       (digits ?z \<noteq> [] \<longrightarrow> digits q' \<noteq> []) \<and> canonical r' \<and> \<not> negative r' \<and>
       value_of r' < value_of ?d \<and>
       val (digits ?cur) = val (digits q') * value_of ?d + value_of r'"
    using d(3) z by (intro div_loop_correct [OF d cur]) simp_all
  then obtain q' r' where dl: "div_loop (digits ?cur) ?d (length (digits ?cur)) ?z ?z = Some (q', r')"
    and q': "digits_ok (digits q')" "digits q' \<noteq> []"
    and r': "canonical r'" "\<not> negative r'" "value_of r' < value_of ?d"
    and eq: "val (digits ?cur) = val (digits q') * value_of ?d + value_of r'"
    by auto
  from r' have r0: "0 \<le> value_of r'" using canonical_negative [of r'] by simp
  from na va have vcur: "val (digits ?cur) = \<bar>value_of a\<bar>" by (simp add: value_of_def)
  from r'(2) have vr: "val (digits r') = value_of r'" by (simp add: value_of_def)
  from int_divmod_unique [OF eq r0 r'(3)]
  have dv: "\<bar>value_of a\<bar> div \<bar>value_of b\<bar> = val (digits q')"
    and md: "\<bar>value_of a\<bar> mod \<bar>value_of b\<bar> = val (digits r')"
    by (simp_all add: vcur vd vr)
  have "divideWithRemainder a b = Some (normalize q', r')"
    using False by (simp add: divideWithRemainder_def dl)
  moreover have "digits (normalize q') \<noteq> []" "digits_ok (digits (normalize q'))"
    "val (digits (normalize q')) = val (digits q')"
    using q' by (simp_all add: digits_normalize removeLeadingZeros_nonempty
        removeLeadingZeros_ok removeLeadingZeros_val)
  moreover from r' have "digits r' \<noteq> []" "digits_ok (digits r')"
    by (simp_all add: canonical_def)
  ultimately show ?thesis by (simp add: dv md)
qed

lemma op_div_correct:
  assumes a: "canonical a" and b: "canonical b" and nz: "value_of b \<noteq> 0"
  shows "\<exists>q. op_div a b = Some (Inr q) \<and> canonical q \<and>
    value_of q = value_of a sdiv value_of b"
proof -
  from divideWithRemainder_correct [OF a b nz]
  obtain q r where dw: "divideWithRemainder a b = Some (q, r)"
    and q: "digits q \<noteq> []" "digits_ok (digits q)"
    and vq: "val (digits q) = \<bar>value_of a\<bar> div \<bar>value_of b\<bar>"
    by blast
  let ?q = "normalize (q\<lparr>negative := (negative a \<noteq> negative b)\<rparr>)"
  from b nz have "\<not> isZero b" by (simp add: canonical_isZero)
  then have eq: "op_div a b = Some (Inr ?q)" by (simp add: op_div_def dw)
  from q have "canonical ?q" by (intro canonical_normalize) simp_all
  moreover have "value_of ?q = value_of a sdiv value_of b"
    using canonical_negative [OF a] canonical_negative [OF b] nz
    by (simp add: value_of_normalize) (auto simp: value_of_def vq signed_divide_int_def sgn_if)
  ultimately show ?thesis using eq by blast
qed

lemma op_mod_correct:
  assumes a: "canonical a" and b: "canonical b" and nz: "value_of b \<noteq> 0"
  shows "\<exists>r. op_mod a b = Some (Inr r) \<and> canonical r \<and>
    value_of r = value_of a smod value_of b"
proof -
  from divideWithRemainder_correct [OF a b nz]
  obtain q r where dw: "divideWithRemainder a b = Some (q, r)"
    and r: "digits r \<noteq> []" "digits_ok (digits r)"
    and vr: "val (digits r) = \<bar>value_of a\<bar> mod \<bar>value_of b\<bar>"
    by blast
  let ?r = "normalize (r\<lparr>negative := negative a\<rparr>)"
  from b nz have "\<not> isZero b" by (simp add: canonical_isZero)
  then have eq: "op_mod a b = Some (Inr ?r)" by (simp add: op_mod_def dw)
  from r have "canonical ?r" by (intro canonical_normalize) simp_all
  moreover have "value_of ?r = value_of a smod value_of b"
    using canonical_negative [OF a]
    by (simp add: value_of_normalize) (auto simp: value_of_def vr signed_modulo_int_def sgn_if)
  ultimately show ?thesis using eq by blast
qed

section \<open>The integer square root\<close>

lemma sdiv2_nonneg: "0 \<le> a \<Longrightarrow> a sdiv 2 = a div (2::int)"
  by (simp add: signed_divide_int_def sgn_if)

lemma smod2_nonneg: "0 \<le> a \<Longrightarrow> a smod 2 = a mod (2::int)"
  by (simp add: signed_modulo_int_def sgn_if)

lemma BigInt_of_ll_1: "BigInt_of_ll 1 = ONE"
  by (simp add: ONE_def)

lemma sqrt_loop_correct:
  assumes n: "canonical n" and N: "1 \<le> value_of n"
  shows "canonical l \<Longrightarrow> canonical r \<Longrightarrow> canonical s \<Longrightarrow>
    1 \<le> value_of l \<Longrightarrow> value_of l \<le> value_of r + 1 \<Longrightarrow>
    value_of n < (value_of r + 1) * (value_of r + 1) \<Longrightarrow>
    value_of s * value_of s \<le> value_of n \<Longrightarrow>
    value_of s = value_of l - 1 \<or> (value_of l = 1 \<and> value_of s = 1) \<Longrightarrow>
    \<exists>res. sqrt_loop n l r s = Some (Inr res) \<and> canonical res \<and> 0 \<le> value_of res \<and>
      value_of res * value_of res \<le> value_of n \<and>
      value_of n < (value_of res + 1) * (value_of res + 1)"
proof (induction "nat (value_of r + 1 - value_of l)" arbitrary: l r s rule: less_induct)
  case less
  note l = less.prems(1) and r = less.prems(2) and s = less.prems(3)
  define L where "L = value_of l"
  define R where "R = value_of r"
  show ?case
  proof (cases "op_le l r")
    case False
    with l r have "R < L" by (simp add: op_le_iff L_def R_def)
    with less.prems(5) have LR: "L = R + 1" by (simp add: L_def R_def)
    have S: "value_of s = R"
    proof (rule disjE [OF less.prems(8)])
      assume "value_of s = value_of l - 1"
      with LR show ?thesis by (simp add: L_def)
    next
      assume "value_of l = 1 \<and> value_of s = 1"
      with LR have "R = 0" by (simp add: L_def)
      with less.prems(6) N show ?thesis by (simp add: R_def)
    qed
    from less.prems(4) LR have "0 \<le> R" by (simp add: L_def)
    with S less.prems(6,7) s have "canonical s \<and> 0 \<le> value_of s \<and>
      value_of s * value_of s \<le> value_of n \<and>
      value_of n < (value_of s + 1) * (value_of s + 1)"
      by (simp add: R_def)
    with False show ?thesis by (subst sqrt_loop.simps) simp
  next
    case True
    with l r have LR: "L \<le> R" by (simp add: op_le_iff L_def R_def)
    from less.prems(4) have L1: "1 \<le> L" by (simp add: L_def)
    from op_add_correct [OF l r]
    have c_lr: "canonical (op_add l r)" and v_lr: "value_of (op_add l r) = L + R"
      by (simp_all add: L_def R_def)
    from op_div_correct [OF c_lr canonical_TWO]
    obtain mid where mid: "op_div (op_add l r) TWO = Some (Inr mid)" and c_mid: "canonical mid"
      and v_mid0: "value_of mid = (L + R) sdiv 2"
      by (auto simp: value_of_TWO v_lr)
    define M where "M = value_of mid"
    from L1 LR v_mid0 have v_mid: "M = (L + R) div 2"
      by (simp add: sdiv2_nonneg M_def)
    with L1 LR have M: "L \<le> M" "M \<le> R" by presburger+
    from op_mul_correct [OF c_mid c_mid]
    obtain square where sq: "op_mul mid mid = Inr square" and c_sq: "canonical square"
      and v_sq: "value_of square = M * M"
      by (auto simp: M_def)
    show ?thesis
    proof (cases "op_le square n")
      case le: True
      with c_sq n have le': "M * M \<le> value_of n" by (simp add: op_le_iff v_sq)
      let ?l' = "op_add mid ONE"
      from op_add_correct [OF c_mid canonical_ONE]
      have c_l': "canonical ?l'" and v_l': "value_of ?l' = M + 1"
        by (simp_all add: value_of_ONE M_def)
      have "nat (value_of r + 1 - value_of ?l') < nat (value_of r + 1 - value_of l)"
        using M L1 by (simp add: v_l' L_def [symmetric] R_def [symmetric])
      from less.hyps [OF this c_l' r c_mid]
      have "\<exists>res. sqrt_loop n ?l' r mid = Some (Inr res) \<and> canonical res \<and>
          0 \<le> value_of res \<and> value_of res * value_of res \<le> value_of n \<and>
          value_of n < (value_of res + 1) * (value_of res + 1)"
        using M L1 le' less.prems(6)
        by (simp add: v_l' M_def [symmetric] R_def [symmetric])
      with True le show ?thesis
        by (subst sqrt_loop.simps) (simp add: mid sq)
    next
      case gt: False
      with c_sq n have gt': "value_of n < M * M" by (simp add: op_le_iff v_sq)
      let ?r' = "op_sub mid ONE"
      from op_sub_correct [OF c_mid canonical_ONE]
      have c_r': "canonical ?r'" and v_r': "value_of ?r' = M - 1"
        by (simp_all add: value_of_ONE M_def)
      have "nat (value_of ?r' + 1 - value_of l) < nat (value_of r + 1 - value_of l)"
        using M L1 by (simp add: v_r' L_def [symmetric] R_def [symmetric])
      from less.hyps [OF this l c_r' s]
      have "\<exists>res. sqrt_loop n l ?r' s = Some (Inr res) \<and> canonical res \<and>
          0 \<le> value_of res \<and> value_of res * value_of res \<le> value_of n \<and>
          value_of n < (value_of res + 1) * (value_of res + 1)"
        using M L1 gt' less.prems(4,7,8)
        by (simp add: v_r' L_def [symmetric])
      with True gt show ?thesis
        by (subst sqrt_loop.simps) (simp add: mid sq)
    qed
  qed
qed

lemma sqrt_big_correct:
  assumes n: "canonical n" and nonneg: "\<not> negative n"
  shows "\<exists>res. sqrt_big n = Some (Inr res) \<and> canonical res \<and> 0 \<le> value_of res \<and>
      value_of res * value_of res \<le> value_of n \<and>
      value_of n < (value_of res + 1) * (value_of res + 1)"
proof -
  from n nonneg have N0: "0 \<le> value_of n" using canonical_negative [of n] by simp
  then have nlt: "\<not> op_lt n ZERO"
    using n by (simp add: op_lt_iff canonical_ZERO value_of_ZERO)
  show ?thesis
  proof (cases "op_le n ONE")
    case True
    with n have "value_of n \<le> 1" by (simp add: op_le_iff canonical_ONE value_of_ONE)
    with N0 have "value_of n = 0 \<or> value_of n = 1" by linarith
    then have "value_of n * value_of n \<le> value_of n \<and>
      value_of n < (value_of n + 1) * (value_of n + 1)" by auto
    with True nlt n N0 show ?thesis by (simp add: sqrt_big_def)
  next
    case False
    with n have N: "1 < value_of n" by (simp add: op_le_iff canonical_ONE value_of_ONE)
    moreover have "0 \<le> value_of n * value_of n" by simp
    moreover have "(value_of n + 1) * (value_of n + 1)
        = value_of n * value_of n + 2 * value_of n + 1"
      by (simp add: algebra_simps)
    ultimately have "value_of n < (value_of n + 1) * (value_of n + 1)"
      by linarith
    with N have "\<exists>res. sqrt_loop n ONE n ONE = Some (Inr res) \<and> canonical res \<and>
        0 \<le> value_of res \<and> value_of res * value_of res \<le> value_of n \<and>
        value_of n < (value_of res + 1) * (value_of res + 1)"
      by (intro sqrt_loop_correct n canonical_ONE) (simp_all add: value_of_ONE)
    with False nlt show ?thesis by (simp add: sqrt_big_def BigInt_of_ll_1)
  qed
qed

section \<open>Primality and the divide-out loop\<close>

lemma is_prime_iff: "is_prime p \<longleftrightarrow> 1 < p \<and> (\<forall>d. 2 \<le> d \<and> d < p \<longrightarrow> \<not> d dvd p)"
  by (auto simp: is_prime_def list_all_iff)

lemma is_prime_2: "is_prime 2"
  by (auto simp: is_prime_iff)

lemma is_prime_odd: "is_prime p \<Longrightarrow> p = 2 \<or> odd p"
  by (auto simp: is_prime_iff)

lemma least_divisor_prime:
  assumes "2 \<le> i" "i dvd m" "\<forall>d. 2 \<le> d \<and> d < i \<longrightarrow> \<not> d dvd m"
  shows "is_prime i"
  unfolding is_prime_iff
proof (intro conjI allI impI)
  show "1 < i" using assms(1) by simp
next
  fix d assume d: "2 \<le> d \<and> d < i"
  show "\<not> d dvd i"
  proof
    assume "d dvd i"
    then have "d dvd m" using assms(2) by (rule dvd_trans)
    with assms(3) d show False by blast
  qed
qed

lemma residual_prime:
  fixes m B :: int
  assumes "1 < m" "m < (B + 1) * (B + 1)" "0 \<le> B"
    and nodiv: "\<forall>d. 2 \<le> d \<and> d \<le> B \<longrightarrow> \<not> d dvd m"
  shows "is_prime m"
  unfolding is_prime_iff
proof (intro conjI allI impI)
  show "1 < m" by fact
next
  fix d assume d: "2 \<le> d \<and> d < m"
  show "\<not> d dvd m"
  proof
    assume "d dvd m"
    then obtain e where e: "m = d * e" by (auto simp: dvd_def)
    from assms(1) e have "0 < d * e" by simp
    moreover from d have "0 < d" by simp
    ultimately have "0 < e" by (rule zero_less_mult_pos)
    moreover from e d have "e \<noteq> 1" by auto
    ultimately have e2: "2 \<le> e" by linarith
    from e have "e dvd m" by simp
    with nodiv e2 have eB: "B + 1 \<le> e" by force
    from \<open>d dvd m\<close> nodiv d have dB: "B + 1 \<le> d" by force
    from dB eB assms(3) have "(B + 1) * (B + 1) \<le> d * e"
      by (intro mult_mono) simp_all
    with e assms(2) show False by simp
  qed
qed

lemma sdiv_pos: "0 \<le> a \<Longrightarrow> 0 < b \<Longrightarrow> a sdiv b = a div (b::int)"
  by (simp add: signed_divide_int_def sgn_if)

lemma smod_pos: "0 \<le> a \<Longrightarrow> 0 < b \<Longrightarrow> a smod b = a mod (b::int)"
  by (simp add: signed_modulo_int_def sgn_if)

lemma divide_out_correct:
  assumes p: "canonical p" and P: "2 \<le> value_of p"
  shows "canonical num \<Longrightarrow> 1 \<le> value_of num \<Longrightarrow>
    \<exists>num' k. divide_out num p count = Some (Inr (num', count + int k)) \<and> canonical num' \<and>
      1 \<le> value_of num' \<and> value_of num = value_of p ^ k * value_of num' \<and>
      \<not> value_of p dvd value_of num'"
proof (induction "nat (value_of num)" arbitrary: num count rule: less_induct)
  case less
  define M where "M = value_of num"
  define P where "P = value_of p"
  note num = less.prems(1)
  have M1: "1 \<le> M" using less.prems(2) by (simp add: M_def)
  have P2: "2 \<le> P" using P by (simp add: P_def)
  then have nz: "value_of p \<noteq> 0" by (simp add: P_def)
  from op_mod_correct [OF num p nz]
  obtain r where r: "op_mod num p = Some (Inr r)" and c_r: "canonical r"
    and v_r0: "value_of r = M smod P"
    by (auto simp: M_def P_def)
  from M1 P2 v_r0 have v_r: "value_of r = M mod P" by (simp add: smod_pos)
  show ?case
  proof (cases "P dvd M")
    case True
    with v_r c_r have z: "op_eq r ZERO"
      by (simp add: op_eq_iff canonical_ZERO value_of_ZERO)
    from op_div_correct [OF num p nz]
    obtain q where q: "op_div num p = Some (Inr q)" and c_q: "canonical q"
      and v_q0: "value_of q = M sdiv P"
      by (auto simp: M_def P_def)
    define Q where "Q = value_of q"
    from M1 P2 v_q0 have v_q: "Q = M div P" by (simp add: sdiv_pos Q_def)
    with True have MQ: "M = P * Q" by simp
    have "0 < Q"
    proof (rule zero_less_mult_pos)
      show "0 < P * Q" using MQ M1 by simp
      show "0 < P" using P2 by simp
    qed
    then have Q1: "1 \<le> Q" by simp
    have "2 * Q \<le> P * Q" using P2 Q1 by (intro mult_right_mono) simp_all
    with MQ Q1 have "Q < M" by linarith
    then have "nat (value_of q) < nat (value_of num)"
      using Q1 by (simp add: Q_def M_def)
    moreover from Q1 have "1 \<le> value_of q" by (simp add: Q_def)
    ultimately have "\<exists>num' k. divide_out q p (count + 1) = Some (Inr (num', count + 1 + int k)) \<and>
        canonical num' \<and> 1 \<le> value_of num' \<and> value_of q = value_of p ^ k * value_of num' \<and>
        \<not> value_of p dvd value_of num'"
      using c_q by (intro less.hyps)
    then obtain num' k where rec: "divide_out q p (count + 1) = Some (Inr (num', count + 1 + int k))"
      and res: "canonical num'" "1 \<le> value_of num'" "Q = P ^ k * value_of num'"
        "\<not> P dvd value_of num'"
      unfolding Q_def P_def by blast
    have eq: "divide_out num p count = Some (Inr (num', count + int (Suc k)))"
      using z rec by (subst divide_out.simps) (simp add: r q)
    from MQ res(3) have "M = P ^ Suc k * value_of num'" by simp
    with eq res show ?thesis
      unfolding M_def P_def by blast
  next
    case False
    then have "M mod P \<noteq> 0" by (simp add: dvd_eq_mod_eq_0)
    with v_r c_r have "\<not> op_eq r ZERO"
      by (simp add: op_eq_iff canonical_ZERO value_of_ZERO)
    then have "divide_out num p count = Some (Inr (num, count + int 0))"
      by (subst divide_out.simps) (simp add: r)
    moreover have "value_of num = value_of p ^ 0 * value_of num" by simp
    ultimately show ?thesis
      using num less.prems(2) False unfolding M_def P_def by blast
  qed
qed

section \<open>The odd-divisor loop of the factorisation\<close>

lemma factors_product_append:
  "factors_product (xs @ ys) = factors_product xs * factors_product ys"
  by (induction xs) (auto simp: algebra_simps)

lemma BigInt_of_ll_3: "BigInt_of_ll 3 = \<lparr>digits = [3], negative = False\<rparr>"
  by (simp add: BigInt_of_ll_def ll_digits.simps signed_divide_int_def signed_modulo_int_def)

lemma canonical_THREE: "canonical (BigInt_of_ll 3)" and value_of_THREE: "value_of (BigInt_of_ll 3) = 3"
  by (simp_all add: BigInt_of_ll_3 canonical_def value_of_def)

lemma odd_loop_correct:
  assumes sq: "canonical sqrtNum"
  shows "canonical i \<Longrightarrow> 3 \<le> value_of i \<Longrightarrow> odd (value_of i) \<Longrightarrow>
    canonical num \<Longrightarrow> 1 \<le> value_of num \<Longrightarrow>
    \<forall>d. 2 \<le> d \<and> d < value_of i \<longrightarrow> \<not> d dvd value_of num \<Longrightarrow>
    list_all (\<lambda>(f, c). canonical f \<and> is_prime (value_of f) \<and> 1 \<le> c) fs \<Longrightarrow>
    sorted_wrt (<) (map (\<lambda>(f, c). value_of f) fs) \<Longrightarrow>
    list_all (\<lambda>(f, c). value_of f < value_of i \<and> value_of f \<le> max 2 (value_of sqrtNum)) fs \<Longrightarrow>
    \<exists>num' fs'. odd_loop i sqrtNum num fs = Some (Inr (num', fs')) \<and> canonical num' \<and>
      1 \<le> value_of num' \<and> value_of num' dvd value_of num \<and>
      (\<forall>d. 2 \<le> d \<and> d \<le> value_of sqrtNum \<longrightarrow> \<not> d dvd value_of num') \<and>
      factors_product fs' * value_of num' = factors_product fs * value_of num \<and>
      list_all (\<lambda>(f, c). canonical f \<and> is_prime (value_of f) \<and> 1 \<le> c) fs' \<and>
      sorted_wrt (<) (map (\<lambda>(f, c). value_of f) fs') \<and>
      list_all (\<lambda>(f, c). value_of f \<le> max 2 (value_of sqrtNum)) fs'"
proof (induction "nat (value_of sqrtNum + 1 - value_of i)" arbitrary: i num fs rule: less_induct)
  case less
  define I where "I = value_of i"
  define B where "B = value_of sqrtNum"
  define M where "M = value_of num"
  note c_i = less.prems(1) and c_num = less.prems(4)
  have I3: "3 \<le> I" and oddI: "odd I" and M1: "1 \<le> M"
    using less.prems(2,3,5) by (simp_all add: I_def M_def)
  have nodiv: "\<forall>d. 2 \<le> d \<and> d < I \<longrightarrow> \<not> d dvd M"
    using less.prems(6) by (simp add: I_def M_def)
  note l1 = less.prems(7) and l2 = less.prems(8) and l3 = less.prems(9)
  show ?case
  proof (cases "op_le i sqrtNum")
    case False
    with c_i sq have "B < I" by (simp add: op_le_iff I_def B_def)
    with nodiv have "\<forall>d. 2 \<le> d \<and> d \<le> B \<longrightarrow> \<not> d dvd M" by auto
    moreover have "list_all (\<lambda>(f, c). value_of f \<le> max 2 (value_of sqrtNum)) fs"
      using l3 by (auto simp: list_all_iff)
    moreover have "odd_loop i sqrtNum num fs = Some (Inr (num, fs))"
      using False by (subst odd_loop.simps) simp
    ultimately show ?thesis
      using c_num M1 l1 l2 unfolding B_def M_def by auto
  next
    case True
    with c_i sq have IB: "I \<le> B" by (simp add: op_le_iff I_def B_def)
    from I3 have I2: "2 \<le> value_of i" by (simp add: I_def)
    from divide_out_correct [OF c_i I2 c_num less.prems(5), of 0]
    obtain num' k where dout: "divide_out num i 0 = Some (Inr (num', int k))"
      and c_num': "canonical num'" and M'1: "1 \<le> value_of num'"
      and MM': "M = I ^ k * value_of num'" and notdiv: "\<not> I dvd value_of num'"
      unfolding I_def M_def by auto
    define M' where "M' = value_of num'"
    define fs1 where "fs1 = (if 0 < int k then fs @ [(i, int k)] else fs)"
    let ?i' = "op_add i TWO"
    from op_add_correct [OF c_i canonical_TWO]
    have c_i': "canonical ?i'" and v_i': "value_of ?i' = I + 2"
      by (simp_all add: value_of_TWO I_def)
    have M'dvd: "M' dvd M" unfolding MM' M'_def by simp
    have meas: "nat (value_of sqrtNum + 1 - value_of ?i') < nat (value_of sqrtNum + 1 - value_of i)"
      using IB by (simp add: v_i' I_def [symmetric] B_def [symmetric])
    have ge3: "3 \<le> value_of ?i'" using I3 by (simp add: v_i')
    have odd': "odd (value_of ?i')" using oddI by (simp add: v_i')
    have even2: "\<not> 2 dvd M" using nodiv I3 by auto
    have nodiv': "\<forall>d. 2 \<le> d \<and> d < value_of ?i' \<longrightarrow> \<not> d dvd value_of num'"
    proof (intro allI impI)
      fix d assume d: "2 \<le> d \<and> d < value_of ?i'"
      then have "d < I + 2" by (simp add: v_i')
      then consider "d < I" | "d = I" | "d = I + 1" by linarith
      then show "\<not> d dvd value_of num'"
      proof cases
        case 1
        with d nodiv have "\<not> d dvd M" by simp
        with M'dvd show ?thesis unfolding M'_def using dvd_trans by blast
      next
        case 2
        with notdiv show ?thesis by simp
      next
        case 3
        with oddI have "2 dvd d" by simp
        show ?thesis
        proof
          assume "d dvd value_of num'"
          with \<open>2 dvd d\<close> have "2 dvd M'" unfolding M'_def by (rule dvd_trans)
          then have "2 dvd M" using M'dvd by (rule dvd_trans)
          with even2 show False by simp
        qed
      qed
    qed
    have prime_i: "is_prime I" if "0 < k"
    proof (rule least_divisor_prime)
      show "2 \<le> I" using I3 by simp
      from that obtain k' where "k = Suc k'" by (cases k) auto
      then show "I dvd M" unfolding MM' by simp
      show "\<forall>d. 2 \<le> d \<and> d < I \<longrightarrow> \<not> d dvd M" by (rule nodiv)
    qed
    have l1': "list_all (\<lambda>(f, c). canonical f \<and> is_prime (value_of f) \<and> 1 \<le> c) fs1"
      using l1 c_i prime_i by (simp add: fs1_def I_def)
    have l2': "sorted_wrt (<) (map (\<lambda>(f, c). value_of f) fs1)"
      using l2 l3 by (auto simp: fs1_def sorted_wrt_append list_all_iff)
    have l3': "list_all (\<lambda>(f, c). value_of f < value_of ?i' \<and> value_of f \<le> max 2 (value_of sqrtNum)) fs1"
      using l3 IB by (auto simp: fs1_def list_all_iff v_i' I_def B_def)
    from less.hyps [OF meas c_i' ge3 odd' c_num' M'1 nodiv' l1' l2' l3']
    obtain num'' fs' where rec: "odd_loop ?i' sqrtNum num' fs1 = Some (Inr (num'', fs'))"
      and res: "canonical num''" "1 \<le> value_of num''" "value_of num'' dvd M'"
        "\<forall>d. 2 \<le> d \<and> d \<le> value_of sqrtNum \<longrightarrow> \<not> d dvd value_of num''"
        "factors_product fs' * value_of num'' = factors_product fs1 * M'"
        "list_all (\<lambda>(f, c). canonical f \<and> is_prime (value_of f) \<and> 1 \<le> c) fs'"
        "sorted_wrt (<) (map (\<lambda>(f, c). value_of f) fs')"
        "list_all (\<lambda>(f, c). value_of f \<le> max 2 (value_of sqrtNum)) fs'"
      unfolding M'_def by blast
    have eq: "odd_loop i sqrtNum num fs = Some (Inr (num'', fs'))"
      using True rec by (subst odd_loop.simps) (simp add: dout fs1_def)
    have "factors_product fs1 * M' = factors_product fs * M"
      unfolding MM' M'_def fs1_def
      by (cases "0 < k") (simp_all add: factors_product_append I_def)
    with res(5) have prod: "factors_product fs' * value_of num'' = factors_product fs * value_of num"
      by (simp add: M_def)
    from res(3) M'dvd have "value_of num'' dvd value_of num"
      unfolding M_def by (rule dvd_trans)
    with eq res prod show ?thesis by blast
  qed
qed

section \<open>Division: exactness, truncation and the zero divisor\<close>

lemma sdiv_sign:
  fixes a b :: int
  assumes "a sdiv b \<noteq> 0"
  shows "a sdiv b < 0 \<longleftrightarrow> (a < 0) \<noteq> (b < 0)"
proof -
  have nn: "0 \<le> \<bar>a\<bar> div \<bar>b\<bar>" by (simp add: div_int_pos_iff)
  from assms have "\<bar>a\<bar> div \<bar>b\<bar> \<noteq> 0" "a \<noteq> 0" "b \<noteq> 0"
    by (auto simp: signed_divide_int_def)
  with nn have "0 < \<bar>a\<bar> div \<bar>b\<bar>" by simp
  with \<open>a \<noteq> 0\<close> \<open>b \<noteq> 0\<close> show ?thesis
    by (auto simp: signed_divide_int_def sgn_if)
qed

lemma smod_sign:
  fixes a b :: int
  assumes "a smod b \<noteq> 0"
  shows "a smod b < 0 \<longleftrightarrow> a < 0"
proof -
  have nn: "0 \<le> \<bar>a\<bar> mod \<bar>b\<bar>"
    by (cases "b = 0") simp_all
  from assms have "\<bar>a\<bar> mod \<bar>b\<bar> \<noteq> 0" "a \<noteq> 0"
    by (auto simp: signed_modulo_int_def)
  with nn have "0 < \<bar>a\<bar> mod \<bar>b\<bar>" by simp
  with \<open>a \<noteq> 0\<close> show ?thesis
    by (auto simp: signed_modulo_int_def sgn_if)
qed

text \<open>
  C1 (amended). For canonical \<open>a\<close> and a canonical non-zero \<open>b\<close>, quotient and remainder
  are returned, \<^verbatim>\<open>(a / b) * b + (a % b) == a\<close> holds, the quotient is the truncating
  quotient of the two integers and the remainder the truncating remainder; the remainder is
  zero or has the sign of \<open>a\<close>, and the quotient is zero or its sign is the exclusive or of
  the operands' signs.
\<close>

theorem division_exact_truncating:
  assumes "canonical a" and "canonical b" and "\<not> isZero b"
  shows "\<exists>q r p. op_div a b = Some (Inr q) \<and> op_mod a b = Some (Inr r) \<and>
     op_mul q b = Inr p \<and> op_eq (op_add p r) a \<and>
     value_of q = value_of a sdiv value_of b \<and> value_of r = value_of a smod value_of b \<and>
     (isZero q \<or> negative q = (negative a \<noteq> negative b)) \<and>
     (isZero r \<or> negative r = negative a)"
proof -
  from assms have nz: "value_of b \<noteq> 0" by (simp add: canonical_isZero)
  from op_div_correct [OF assms(1,2) nz]
  obtain q where q: "op_div a b = Some (Inr q)" "canonical q"
    and vq: "value_of q = value_of a sdiv value_of b" by blast
  from op_mod_correct [OF assms(1,2) nz]
  obtain r where r: "op_mod a b = Some (Inr r)" "canonical r"
    and vr: "value_of r = value_of a smod value_of b" by blast
  from op_mul_correct [OF q(2) assms(2)]
  obtain p where p: "op_mul q b = Inr p" "canonical p"
    and vp: "value_of p = value_of q * value_of b" by blast
  from op_add_correct [OF p(2) r(2)]
  have s: "canonical (op_add p r)" "value_of (op_add p r) = value_of p + value_of r"
    by simp_all
  have "value_of (op_add p r) = value_of a"
    by (simp add: s(2) vp vq vr sdiv_mult_smod_eq)
  with s(1) assms(1) have eq: "op_eq (op_add p r) a" by (simp add: op_eq_iff)
  have sq: "isZero q \<or> negative q = (negative a \<noteq> negative b)"
    using sdiv_sign [of "value_of a" "value_of b"]
    by (auto simp: canonical_isZero canonical_negative q(2) assms(1,2) vq)
  have sr: "isZero r \<or> negative r = negative a"
    using smod_sign [of "value_of a" "value_of b"]
    by (auto simp: canonical_isZero canonical_negative r(2) assms(1) vr)
  from q(1) r(1) p(1) eq vq vr sq sr show ?thesis by blast
qed

theorem division_exact_truncating_witness:
  "\<exists>q r p. op_div \<lparr>digits = [7], negative = True\<rparr> \<lparr>digits = [2], negative = False\<rparr> = Some (Inr q) \<and>
     op_mod \<lparr>digits = [7], negative = True\<rparr> \<lparr>digits = [2], negative = False\<rparr> = Some (Inr r) \<and>
     op_mul q \<lparr>digits = [2], negative = False\<rparr> = Inr p \<and>
     op_eq (op_add p r) \<lparr>digits = [7], negative = True\<rparr> \<and>
     value_of q = - 3 \<and> value_of r = - 1 \<and>
     (isZero q \<or> negative q) \<and> (isZero r \<or> negative r)"
  using division_exact_truncating
    [of "\<lparr>digits = [7], negative = True\<rparr>" "\<lparr>digits = [2], negative = False\<rparr>"]
  by (simp add: canonical_def isZero_def value_of_def signed_divide_int_def
      signed_modulo_int_def)

theorem quotient_sign_counterexample:
  "op_div \<lparr>digits = [1], negative = False\<rparr> \<lparr>digits = [2], negative = True\<rparr>
     = Some (Inr \<lparr>digits = [0], negative = False\<rparr>)
   \<and> negative \<lparr>digits = [0], negative = False\<rparr>
     \<noteq> (negative \<lparr>digits = [1], negative = False\<rparr> \<noteq> negative \<lparr>digits = [2], negative = True\<rparr>)"
  by code_simp

text \<open>
  C6. A zero divisor makes division and modulus fail with \<open>DivisionByZero\<close> whatever the
  dividend, these operators fail with \<open>DivisionByZero\<close> for no other divisor, and on
  canonical operands with a non-zero divisor both return a value. The operands are passed
  by constant reference and are values of the model: no operation changes them.
\<close>

theorem division_by_zero:
  "(isZero b \<longrightarrow> op_div x b = Some (Inl DivisionByZero) \<and> op_mod x b = Some (Inl DivisionByZero))
   \<and> op_div x ZERO = Some (Inl DivisionByZero) \<and> op_mod x ZERO = Some (Inl DivisionByZero)
   \<and> (op_div x b = Some (Inl DivisionByZero) \<longrightarrow> isZero b)
   \<and> (op_mod x b = Some (Inl DivisionByZero) \<longrightarrow> isZero b)
   \<and> (canonical x \<and> canonical b \<and> \<not> isZero b \<longrightarrow>
        (\<exists>q. op_div x b = Some (Inr q)) \<and> (\<exists>r. op_mod x b = Some (Inr r)))"
proof -
  have "\<exists>q. op_div x b = Some (Inr q)" "\<exists>r. op_mod x b = Some (Inr r)"
    if "canonical x" "canonical b" "\<not> isZero b"
    using that op_div_correct [of x b] op_mod_correct [of x b]
    by (auto simp: canonical_isZero)
  moreover have "isZero ZERO" by (simp add: ZERO_eq isZero_def)
  ultimately show ?thesis
    by (auto simp: op_div_def op_mod_def split: option.splits)
qed

theorem division_by_zero_witness:
  "op_div \<lparr>digits = [7], negative = True\<rparr> \<lparr>digits = [0], negative = False\<rparr>
      = Some (Inl DivisionByZero)
   \<and> op_mod \<lparr>digits = [7], negative = True\<rparr> \<lparr>digits = [0], negative = False\<rparr>
      = Some (Inl DivisionByZero)
   \<and> (\<exists>q. op_div \<lparr>digits = [7], negative = True\<rparr> \<lparr>digits = [2], negative = False\<rparr> = Some (Inr q))
   \<and> (\<exists>r. op_mod \<lparr>digits = [7], negative = True\<rparr> \<lparr>digits = [2], negative = False\<rparr> = Some (Inr r))"
  using division_by_zero [of "\<lparr>digits = [0], negative = False\<rparr>" "\<lparr>digits = [7], negative = True\<rparr>"]
    division_by_zero [of "\<lparr>digits = [2], negative = False\<rparr>" "\<lparr>digits = [7], negative = True\<rparr>"]
  by (simp add: canonical_def isZero_def)

section \<open>The square root: floor and failure\<close>

lemma BigInt_of_ll_100: "BigInt_of_ll 100 = \<lparr>digits = [0, 0, 1], negative = False\<rparr>"
  and BigInt_of_ll_99: "BigInt_of_ll 99 = \<lparr>digits = [9, 9], negative = False\<rparr>"
  and BigInt_of_ll_10: "BigInt_of_ll 10 = \<lparr>digits = [0, 1], negative = False\<rparr>"
  and BigInt_of_ll_9: "BigInt_of_ll 9 = \<lparr>digits = [9], negative = False\<rparr>"
  by (simp_all add: BigInt_of_ll_def ll_digits.simps signed_divide_int_def signed_modulo_int_def)

lemma sqrt_big_100:
  "sqrt_big \<lparr>digits = [0, 0, 1], negative = False\<rparr> = Some (Inr \<lparr>digits = [0, 1], negative = False\<rparr>)"
  by code_simp

lemma sqrt_big_99:
  "sqrt_big \<lparr>digits = [9, 9], negative = False\<rparr> = Some (Inr \<lparr>digits = [9], negative = False\<rparr>)"
  by code_simp

text \<open>
  C8. For a canonical \<open>n \<ge> 0\<close>, \<^verbatim>\<open>sqrt\<close> returns the floor of the square root: a
  canonical \<open>r \<ge> 0\<close> with \<open>r * r \<le> n < (r + 1) * (r + 1)\<close>, as integers and as computed
  and compared by the library itself. It fails with \<open>InvalidInput\<close> exactly when \<open>n\<close> is
  negative. The square root of 100 is 10, that of 99 is 9.
\<close>

theorem sqrt_floor:
  assumes "canonical n"
  shows "(\<not> negative n \<longrightarrow>
      (\<exists>r sq sq1. sqrt_big n = Some (Inr r) \<and> canonical r \<and> 0 \<le> value_of r \<and>
         value_of r * value_of r \<le> value_of n \<and>
         value_of n < (value_of r + 1) * (value_of r + 1) \<and>
         op_mul r r = Inr sq \<and> op_le sq n \<and>
         op_mul (op_add r ONE) (op_add r ONE) = Inr sq1 \<and> op_gt sq1 n))
    \<and> (negative n \<longleftrightarrow> sqrt_big n = Some (Inl InvalidInput))
    \<and> sqrt_big (BigInt_of_ll 100) = Some (Inr (BigInt_of_ll 10))
    \<and> sqrt_big (BigInt_of_ll 99) = Some (Inr (BigInt_of_ll 9))"
proof -
  have pos: "\<exists>r sq sq1. sqrt_big n = Some (Inr r) \<and> canonical r \<and> 0 \<le> value_of r \<and>
         value_of r * value_of r \<le> value_of n \<and>
         value_of n < (value_of r + 1) * (value_of r + 1) \<and>
         op_mul r r = Inr sq \<and> op_le sq n \<and>
         op_mul (op_add r ONE) (op_add r ONE) = Inr sq1 \<and> op_gt sq1 n"
    if nonneg: "\<not> negative n"
  proof -
    from sqrt_big_correct [OF assms nonneg]
    obtain r where r: "sqrt_big n = Some (Inr r)" "canonical r" "0 \<le> value_of r"
      "value_of r * value_of r \<le> value_of n"
      "value_of n < (value_of r + 1) * (value_of r + 1)"
      by blast
    from op_mul_correct [OF r(2) r(2)]
    obtain sq where sq: "op_mul r r = Inr sq" "canonical sq"
      "value_of sq = value_of r * value_of r" by blast
    from op_add_correct [OF r(2) canonical_ONE]
    have r1: "canonical (op_add r ONE)" "value_of (op_add r ONE) = value_of r + 1"
      by (simp_all add: value_of_ONE)
    from op_mul_correct [OF r1(1) r1(1)]
    obtain sq1 where sq1: "op_mul (op_add r ONE) (op_add r ONE) = Inr sq1" "canonical sq1"
      "value_of sq1 = (value_of r + 1) * (value_of r + 1)"
      by (auto simp: r1(2))
    from sq r(4) assms have "op_le sq n" by (simp add: op_le_iff)
    moreover from sq1 r(5) assms have "op_gt sq1 n" by (simp add: op_gt_iff)
    ultimately show ?thesis using r sq(1) sq1(1) by blast
  qed
  have neg: "sqrt_big n = Some (Inl InvalidInput)" if "negative n"
  proof -
    from that assms have "op_lt n ZERO"
      by (simp add: op_lt_iff canonical_ZERO value_of_ZERO canonical_negative)
    then show ?thesis by (simp add: sqrt_big_def)
  qed
  have "negative n \<longleftrightarrow> sqrt_big n = Some (Inl InvalidInput)"
    using pos neg by (cases "negative n") auto
  with pos show ?thesis
    by (simp add: BigInt_of_ll_100 BigInt_of_ll_99 BigInt_of_ll_10 BigInt_of_ll_9
        sqrt_big_100 sqrt_big_99)
qed

theorem sqrt_floor_witness:
  "(\<exists>r sq sq1. sqrt_big \<lparr>digits = [0, 5], negative = False\<rparr> = Some (Inr r) \<and> canonical r \<and>
       0 \<le> value_of r \<and> value_of r * value_of r \<le> 50 \<and>
       50 < (value_of r + 1) * (value_of r + 1) \<and>
       op_mul r r = Inr sq \<and> op_le sq \<lparr>digits = [0, 5], negative = False\<rparr> \<and>
       op_mul (op_add r ONE) (op_add r ONE) = Inr sq1 \<and>
       op_gt sq1 \<lparr>digits = [0, 5], negative = False\<rparr>)
   \<and> sqrt_big \<lparr>digits = [4], negative = True\<rparr> = Some (Inl InvalidInput)"
  using sqrt_floor [of "\<lparr>digits = [0, 5], negative = False\<rparr>"]
    sqrt_floor [of "\<lparr>digits = [4], negative = True\<rparr>"]
  by (simp add: canonical_def value_of_def)

section \<open>The prime factorisation\<close>

lemma primeFactorization_general:
  assumes n: "canonical n" and big: "2 \<le> \<bar>value_of n\<bar>"
  shows "\<exists>fs. primeFactorization n = Some (Inr fs) \<and>
      list_all (\<lambda>(f, c). canonical f \<and> is_prime (value_of f) \<and> 1 \<le> c) fs \<and>
      sorted_wrt (<) (map (\<lambda>(f, c). value_of f) fs) \<and>
      list_all (\<lambda>(f, c). value_of f = 2 \<or> odd (value_of f)) fs \<and>
      factors_product fs = \<bar>value_of n\<bar>"
proof -
  define num where "num = abs_big n"
  define N where "N = \<bar>value_of n\<bar>"
  from canonical_abs_big [OF n]
  have c_num: "canonical num" and v_num: "value_of num = N"
    by (simp_all add: num_def N_def)
  from big have N2: "2 \<le> N" by (simp add: N_def)
  then have not_le: "\<not> op_le num ONE"
    using c_num by (simp add: op_le_iff canonical_ONE value_of_ONE v_num)
  have two: "2 \<le> value_of TWO" by (simp add: value_of_TWO)
  from N2 have "1 \<le> value_of num" by (simp add: v_num)
  from divide_out_correct [OF canonical_TWO two c_num this, of 0]
  obtain num1 k2 where d2: "divide_out num TWO 0 = Some (Inr (num1, int k2))"
    and c_num1: "canonical num1" and M1_1: "1 \<le> value_of num1"
    and NM1: "N = 2 ^ k2 * value_of num1" and odd1: "\<not> 2 dvd value_of num1"
    by (auto simp: value_of_TWO v_num)
  define M1 where "M1 = value_of num1"
  define fs0 where "fs0 = (if 0 < int k2 then [(TWO, int k2)] else [])"
  from M1_1 c_num1 have "\<not> negative num1" by (simp add: canonical_negative)
  from sqrt_big_correct [OF c_num1 this]
  obtain sqrtNum where sq: "sqrt_big num1 = Some (Inr sqrtNum)" and c_sq: "canonical sqrtNum"
    and B0: "0 \<le> value_of sqrtNum"
    and Bhi: "M1 < (value_of sqrtNum + 1) * (value_of sqrtNum + 1)"
    by (auto simp: M1_def)
  define B where "B = value_of sqrtNum"
  have nodiv3: "\<forall>d. 2 \<le> d \<and> d < value_of (BigInt_of_ll 3) \<longrightarrow> \<not> d dvd value_of num1"
  proof (intro allI impI)
    fix d :: int assume "2 \<le> d \<and> d < value_of (BigInt_of_ll 3)"
    then have "d = 2" by (simp add: value_of_THREE)
    with odd1 show "\<not> d dvd value_of num1" by simp
  qed
  have l1: "list_all (\<lambda>(f, c). canonical f \<and> is_prime (value_of f) \<and> 1 \<le> c) fs0"
    by (simp add: fs0_def canonical_TWO value_of_TWO is_prime_2)
  have l2: "sorted_wrt (<) (map (\<lambda>(f, c). value_of f) fs0)"
    by (simp add: fs0_def)
  have l3: "list_all (\<lambda>(f, c). value_of f < value_of (BigInt_of_ll 3)
      \<and> value_of f \<le> max 2 (value_of sqrtNum)) fs0"
    by (simp add: fs0_def value_of_TWO value_of_THREE)
  have three: "3 \<le> value_of (BigInt_of_ll 3)" "odd (value_of (BigInt_of_ll 3))"
    by (simp_all add: value_of_THREE)
  from odd_loop_correct [OF c_sq canonical_THREE three c_num1 M1_1 nodiv3 l1 l2 l3]
  obtain num2 fs2 where ol: "odd_loop (BigInt_of_ll 3) sqrtNum num1 fs0 = Some (Inr (num2, fs2))"
    and c_num2: "canonical num2" and M2_1: "1 \<le> value_of num2"
    and M2dvd: "value_of num2 dvd M1"
    and nodivB: "\<forall>d. 2 \<le> d \<and> d \<le> B \<longrightarrow> \<not> d dvd value_of num2"
    and prod2: "factors_product fs2 * value_of num2 = factors_product fs0 * M1"
    and g1: "list_all (\<lambda>(f, c). canonical f \<and> is_prime (value_of f) \<and> 1 \<le> c) fs2"
    and g2: "sorted_wrt (<) (map (\<lambda>(f, c). value_of f) fs2)"
    and g3: "list_all (\<lambda>(f, c). value_of f \<le> max 2 B) fs2"
    unfolding M1_def B_def by blast
  define M2 where "M2 = value_of num2"
  define fs where "fs = (if op_gt num2 ONE then fs2 @ [(num2, 1)] else fs2)"
  have pf: "primeFactorization n = Some (Inr fs)"
    using not_le ol [unfolded fs0_def]
    by (simp add: primeFactorization_def Let_def num_def [symmetric] d2 sq fs_def)
  have prod0: "factors_product fs0 * M1 = N"
    unfolding NM1 M1_def fs0_def by (cases "0 < k2") (simp_all add: value_of_TWO)
  have gt_iff: "op_gt num2 ONE \<longleftrightarrow> 1 < M2"
    using c_num2 by (simp add: op_gt_iff canonical_ONE value_of_ONE M2_def)
  have res: "is_prime M2 \<and> (\<forall>f. f \<le> max 2 B \<longrightarrow> f < M2)" if "1 < M2"
  proof -
    from M1_1 have "0 < M1" by (simp add: M1_def)
    with M2dvd have "M2 \<le> M1" unfolding M2_def by (rule zdvd_imp_le)
    with Bhi have hi: "M2 < (B + 1) * (B + 1)" by (simp add: B_def)
    from that hi B0 nodivB have "is_prime M2"
      unfolding M2_def B_def by (intro residual_prime) simp_all
    moreover have "B < M2"
    proof (rule ccontr)
      assume "\<not> B < M2"
      with that have "2 \<le> M2 \<and> M2 \<le> B" by simp
      with nodivB have "\<not> M2 dvd M2" unfolding M2_def by blast
      then show False by simp
    qed
    moreover have "M2 \<noteq> 2"
    proof
      assume "M2 = 2"
      with M2dvd have "2 dvd M1" by (simp add: M2_def)
      with odd1 show False by (simp add: M1_def)
    qed
    ultimately show ?thesis using that by auto
  qed
  have f1: "list_all (\<lambda>(f, c). canonical f \<and> is_prime (value_of f) \<and> 1 \<le> c) fs"
    using g1 c_num2 res by (simp add: fs_def gt_iff M2_def)
  have f2: "sorted_wrt (<) (map (\<lambda>(f, c). value_of f) fs)"
    using g2 g3 res by (auto simp: fs_def gt_iff sorted_wrt_append list_all_iff M2_def)
  have f3: "list_all (\<lambda>(f, c). value_of f = 2 \<or> odd (value_of f)) fs"
    using f1 is_prime_odd by (auto simp: list_all_iff)
  have f4: "factors_product fs = N"
  proof (cases "1 < M2")
    case True
    then have "factors_product fs = factors_product fs2 * value_of num2"
      by (simp add: fs_def gt_iff factors_product_append)
    with prod2 prod0 show ?thesis by simp
  next
    case False
    with M2_1 have "value_of num2 = 1" by (simp add: M2_def)
    with False prod2 prod0 show ?thesis by (simp add: fs_def gt_iff)
  qed
  from pf f1 f2 f3 f4 show ?thesis unfolding N_def by blast
qed

lemma primeFactorization_360:
  "primeFactorization \<lparr>digits = [0, 6, 3], negative = False\<rparr> =
     Some (Inr [(\<lparr>digits = [2], negative = False\<rparr>, 3), (\<lparr>digits = [3], negative = False\<rparr>, 2),
                (\<lparr>digits = [5], negative = False\<rparr>, 1)])"
  by code_simp

lemma BigInt_of_ll_360: "BigInt_of_ll 360 = \<lparr>digits = [0, 6, 3], negative = False\<rparr>"
  and BigInt_of_ll_2: "BigInt_of_ll 2 = \<lparr>digits = [2], negative = False\<rparr>"
  by (simp_all add: BigInt_of_ll_def ll_digits.simps signed_divide_int_def signed_modulo_int_def)

text \<open>
  C9. For a canonical \<open>n\<close> with \<open>|n| \<ge> 2\<close>, \<^verbatim>\<open>primeFactorization\<close> returns a list of
  pairs whose factors are canonical primes in strictly ascending order (so that 2, when it
  occurs, is first, every other factor is odd, and the residual cofactor is last), whose
  multiplicities are at least 1, and whose prime powers multiply to \<open>|n|\<close>. The factorisation
  of 360 is \<open>[(2, 3), (3, 2), (5, 1)]\<close>.
\<close>

theorem primeFactorization_correct:
  assumes "canonical n" and "2 \<le> \<bar>value_of n\<bar>"
  shows "(\<exists>fs. primeFactorization n = Some (Inr fs) \<and>
      list_all (\<lambda>(f, c). canonical f \<and> is_prime (value_of f) \<and> 1 \<le> c) fs \<and>
      sorted_wrt (<) (map (\<lambda>(f, c). value_of f) fs) \<and>
      list_all (\<lambda>(f, c). value_of f = 2 \<or> odd (value_of f)) fs \<and>
      factors_product fs = \<bar>value_of n\<bar>)
    \<and> primeFactorization (BigInt_of_ll 360) =
        Some (Inr [(BigInt_of_ll 2, 3), (BigInt_of_ll 3, 2), (BigInt_of_ll 5, 1)])"
  using primeFactorization_general [OF assms]
  by (simp add: BigInt_of_ll_360 BigInt_of_ll_2 BigInt_of_ll_3 BigInt_of_ll_5
      primeFactorization_360)

theorem primeFactorization_correct_witness:
  "\<exists>fs. primeFactorization \<lparr>digits = [4, 8], negative = True\<rparr> = Some (Inr fs) \<and>
      list_all (\<lambda>(f, c). canonical f \<and> is_prime (value_of f) \<and> 1 \<le> c) fs \<and>
      sorted_wrt (<) (map (\<lambda>(f, c). value_of f) fs) \<and>
      list_all (\<lambda>(f, c). value_of f = 2 \<or> odd (value_of f)) fs \<and>
      factors_product fs = 84"
  using primeFactorization_correct [of "\<lparr>digits = [4, 8], negative = True\<rparr>"]
  by (simp add: canonical_def value_of_def)

section \<open>The text constructor and the native conversion in general\<close>

text \<open>
  With \<open>start = 0\<close> the loop of the text constructor cannot stop at its test: on a string
  of digits it walks down to index 0, wraps, and reads out of bounds.
\<close>

lemma parse_digits_unsigned:
  "i < length str \<Longrightarrow> length str \<le> SIZE_MAX \<Longrightarrow> list_all isdigit str \<Longrightarrow>
   parse_digits str 0 i ds = Inl UndefinedBehaviour"
proof (induction i arbitrary: ds)
  case 0
  then have "isdigit (str ! 0)" by (simp add: list_all_length)
  moreover have "parse_digits str 0 SIZE_MAX (ds @ [digit_of_char (str ! 0)]) = Inl UndefinedBehaviour"
    using 0 by (subst parse_digits.simps) simp
  ultimately show ?case
    using 0 by (subst parse_digits.simps) (simp add: size_dec_def)
next
  case (Suc i)
  then have "isdigit (str ! Suc i)" by (simp add: list_all_length)
  moreover have "parse_digits str 0 i (ds @ [digit_of_char (str ! Suc i)]) = Inl UndefinedBehaviour"
    using Suc by simp
  ultimately show ?case
    using Suc.prems by (subst parse_digits.simps) (simp add: size_dec_def)
qed

lemma BigInt_of_string_unsigned:
  assumes "str \<noteq> []" "length str \<le> SIZE_MAX" "list_all isdigit str"
  shows "BigInt_of_string str = Inl UndefinedBehaviour"
proof -
  from assms(1,3) have "isdigit (str ! 0)" by (simp add: list_all_length)
  then have "str ! 0 \<noteq> CHR ''-''" "str ! 0 \<noteq> CHR ''+''"
    by (auto simp: isdigit_def)
  moreover from assms have "parse_digits str 0 (length str - 1) [] = Inl UndefinedBehaviour"
    by (intro parse_digits_unsigned) simp_all
  ultimately show ?thesis
    using assms(1) by (simp add: BigInt_of_string_def)
qed

text \<open>
  The lower bound of the range check of \<^verbatim>\<open>toLongLong\<close> has no digits, and every negative
  value with at least one digit is ranked below it.
\<close>

lemma toLongLong_negative:
  assumes "negative b" "digits b \<noteq> []"
  shows "toLongLong b = Inl OutOfRange"
proof -
  from assms have "op_lt b (BigInt_of_ll LLONG_MIN)"
    by (simp add: op_lt_def compareMagnitude_def BigInt_of_ll_LLONG_MIN)
  then show ?thesis by (simp add: toLongLong_def)
qed

section \<open>The constructors and conversions at their boundary inputs\<close>

text \<open>
  C2 (the code departs from the claim). A canonical string without a sign character is not
  parsed: with \<open>start = 0\<close> the test \<^verbatim>\<open>i >= start\<close> on the unsigned counter never fails,
  the counter wraps below zero and the constructor reads \<^verbatim>\<open>str[SIZE_MAX]\<close>. The round
  trip holds for a string that has a sign, where the loop stops at index 1.
\<close>

theorem roundtrip_unsigned_string:
  "BigInt_of_string ''123'' = Inl UndefinedBehaviour
   \<and> map_sum id toString (BigInt_of_string ''-123'') = Inr ''-123''"
  by code_simp

text \<open>
  C3 (the code departs from the claim). Unary negation of zero flips the flag without
  normalising: the result has digits \<open>[0]\<close> and \<open>negative = True\<close>, and
  \<^verbatim>\<open>operator==\<close> tells it apart from \<^verbatim>\<open>ZERO\<close>.
\<close>

theorem negate_zero_not_canonical:
  "op_neg ZERO = \<lparr>digits = [0], negative = True\<rparr> \<and> \<not> op_eq (op_neg ZERO) ZERO"
  by (simp add: ZERO_eq op_neg_def op_eq_def)

text \<open>
  C4 (the code departs from the claim). At the minimum 64-bit value the negation leaves the
  argument negative, the digit loop does not run, and the result has no digits at all; its
  text form is a lone minus sign.
\<close>

theorem BigInt_of_ll_min:
  "BigInt_of_ll LLONG_MIN = \<lparr>digits = [], negative = True\<rparr>
   \<and> toString (BigInt_of_ll LLONG_MIN) = ''-''"
  by (simp add: BigInt_of_ll_LLONG_MIN toString_def isZero_def)

text \<open>
  C5 (the code departs from the claim). The three malformed inputs of the claim give
  \<open>InvalidInput\<close>, but a string of digits without a sign, which the grammar accepts, is
  not parsed: the constructor reads beyond the string (the defect of C2).
\<close>

theorem parse_unsigned_digits_fails:
  "BigInt_of_string ''7'' = Inl UndefinedBehaviour
   \<and> BigInt_of_string [] = Inl InvalidInput
   \<and> BigInt_of_string ''abc'' = Inl InvalidInput
   \<and> BigInt_of_string ''-'' = Inl InvalidInput
   \<and> BigInt_of_string ''+7'' = Inr \<lparr>digits = [7], negative = False\<rparr>"
  by code_simp

text \<open>
  C7 (the code departs from the claim). The lower bound of the range check is
  \<^verbatim>\<open>BigInt(LLONG_MIN)\<close>, which has no digits (C4), so every negative value compares below
  it: \<open>-5\<close> is inside the 64-bit range and is rejected with \<open>OutOfRange\<close>.
\<close>

theorem toLongLong_negative_rejected:
  "toLongLong (BigInt_of_ll (- 5)) = Inl OutOfRange
   \<and> toLongLong (BigInt_of_ll 5) = Inr 5"
  by (simp add: toLongLong_def BigInt_of_ll_LLONG_MIN BigInt_of_ll_LLONG_MAX BigInt_of_ll_m5
      BigInt_of_ll_5 op_gt_def op_le_def op_lt_def op_eq_def compareMagnitude_def)

text \<open>
  C10. For every base, zero included, \<^verbatim>\<open>pow\<close> with exponent \<^verbatim>\<open>ZERO\<close> returns \<^verbatim>\<open>ONE\<close>
  before any multiplication, and so does the power operator.
\<close>

theorem pow_zero_exponent:
  "pow b ZERO = Some (Inr ONE) \<and> op_pow b ZERO = Some (Inr ONE)
   \<and> ONE = \<lparr>digits = [1], negative = False\<rparr>"
  by (simp add: pow_def op_pow_def ZERO_eq ONE_eq op_lt_def compareMagnitude_def isZero_def)

end
